theory Spec2Isabelle
  imports Main "HOL-Library.Char_ord" "HOL-Library.List_Lexorder" "HOL-Library.AList"
begin

section \<open>Python strings\<close>

text \<open>
  A Python \<^verbatim>\<open>str\<close> is a \<^typ>\<open>string\<close>. The model reads strings as ASCII text:
  \<open>lower\<close> maps \<open>A\<close>..\<open>Z\<close> to \<open>a\<close>..\<open>z\<close> and leaves every other character alone.
\<close>

definition lower_char :: "char \<Rightarrow> char" where
  "lower_char c =
     (case map_of (zip ''ABCDEFGHIJKLMNOPQRSTUVWXYZ'' ''abcdefghijklmnopqrstuvwxyz'') c of
        Some l \<Rightarrow> l
      | None \<Rightarrow> c)"

definition lower :: "string \<Rightarrow> string" where
  "lower s = map lower_char s"

text \<open>\<open>startswith s p\<close> is \<^verbatim>\<open>s.startswith(p)\<close>.\<close>

fun startswith :: "string \<Rightarrow> string \<Rightarrow> bool" where
  "startswith s [] = True"
| "startswith [] (p # ps) = False"
| "startswith (c # cs) (p # ps) = (c = p \<and> startswith cs ps)"

definition endswith :: "string \<Rightarrow> string \<Rightarrow> bool" where
  "endswith s p = startswith (rev s) (rev p)"

text \<open>\<open>contains s sub\<close> is \<^verbatim>\<open>sub in s\<close>.\<close>

fun contains :: "string \<Rightarrow> string \<Rightarrow> bool" where
  "contains [] sub = (sub = [])"
| "contains (c # cs) sub = (startswith (c # cs) sub \<or> contains cs sub)"

text \<open>
  \<open>py_replace old new s\<close> is \<^verbatim>\<open>s.replace(old, new)\<close>: one pass from the left over
  non-overlapping occurrences; the text put in is not scanned again.
\<close>

function py_replace :: "string \<Rightarrow> string \<Rightarrow> string \<Rightarrow> string" where
  "py_replace old new [] = (if old = [] then new else [])"
| "py_replace old new (c # cs) =
     (if old = [] then new @ c # py_replace old new cs
      else if startswith (c # cs) old then new @ py_replace old new (drop (length old) (c # cs))
      else c # py_replace old new cs)"
  by pat_completeness auto
termination
  by (relation "measure (\<lambda>(old, new, s). length s)") (auto simp: neq_Nil_conv)

text \<open>Decimal text of a natural number, as an f-string prints it.\<close>

definition digit :: "nat \<Rightarrow> char" where
  "digit d = ''0123456789'' ! d"

function str_nat :: "nat \<Rightarrow> string" where
  "str_nat n = (if n < 10 then [digit n] else str_nat (n div 10) @ [digit (n mod 10)])"
  by pat_completeness auto
termination
  by (relation "measure id") auto

declare str_nat.simps [simp del]

text \<open>Splitting at the first and at the last occurrence of a character.\<close>

definition before_first :: "char \<Rightarrow> string \<Rightarrow> string" where
  "before_first c s = takeWhile (\<lambda>x. x \<noteq> c) s"

definition after_first :: "char \<Rightarrow> string \<Rightarrow> string" where
  "after_first c s = drop 1 (dropWhile (\<lambda>x. x \<noteq> c) s)"

definition after_last :: "char \<Rightarrow> string \<Rightarrow> string" where
  "after_last c s = rev (takeWhile (\<lambda>x. x \<noteq> c) (rev s))"

definition upto_last :: "char \<Rightarrow> string \<Rightarrow> string" where
  "upto_last c s = rev (dropWhile (\<lambda>x. x \<noteq> c) (rev s))"

section \<open>Exceptions and the standard library\<close>

text \<open>Every exception the script can meet is a value; a raising call returns \<open>Inl\<close>.\<close>

datatype error =
    ValueError | KeyError | TypeError | AttributeError
  | HTTPError nat | RequestException | OSError

text \<open>
  Three functions of the Python standard library are parameters of the model:
  the SHA-256 hex digest, \<^verbatim>\<open>urllib.parse.unquote\<close>, and the test
  \<^verbatim>\<open>urllib.parse._check_bracketed_host\<close> passes on the text between \<open>[\<close> and \<open>]\<close>
  of a network location.
\<close>

record lib =
  sha256 :: "string \<Rightarrow> string"
  unquote :: "string \<Rightarrow> string"
  valid_bracketed_host :: "string \<Rightarrow> bool"

subsection \<open>\<^verbatim>\<open>urllib.parse.urlparse\<close>\<close>

text \<open>
  The splitting algorithm of CPython 3.11's \<^verbatim>\<open>urlsplit\<close> and \<^verbatim>\<open>urlparse\<close>, for
  ASCII text: leading control characters and spaces are stripped, tab, carriage return
  and line feed are removed, then scheme, network location, fragment, query and
  parameters are cut off in that order. A network location with one square bracket and
  not the other raises \<^verbatim>\<open>ValueError\<close>.
\<close>

record ParseResult =
  scheme :: string
  netloc :: string
  path :: string
  params :: string
  query :: string
  fragment :: string

definition c0_control_or_space :: "char \<Rightarrow> bool" where
  "c0_control_or_space c = (c \<le> CHR '' '')"

definition unsafe_url_byte :: "char \<Rightarrow> bool" where
  "unsafe_url_byte c = (c = CHR 0x09 \<or> c = CHR 0x0D \<or> c = CHR 0x0A)"

definition scheme_chars :: string where
  "scheme_chars = ''abcdefghijklmnopqrstuvwxyzABCDEFGHIJKLMNOPQRSTUVWXYZ0123456789+-.''"

definition ascii_alpha :: "char \<Rightarrow> bool" where
  "ascii_alpha c = (c \<in> set ''abcdefghijklmnopqrstuvwxyzABCDEFGHIJKLMNOPQRSTUVWXYZ'')"

definition uses_params :: "string list" where
  "uses_params = ['''', ''ftp'', ''hdl'', ''prospero'', ''http'', ''imap'', ''https'', ''shttp'',
     ''rtsp'', ''rtsps'', ''rtspu'', ''sip'', ''sips'', ''mms'', ''sftp'', ''tel'']"

definition netloc_char :: "char \<Rightarrow> bool" where
  "netloc_char c = (c \<noteq> CHR ''/'' \<and> c \<noteq> CHR ''?'' \<and> c \<noteq> CHR ''#'')"

text \<open>The part of \<^verbatim>\<open>urlsplit\<close> after the network location: fragment, then query.\<close>

definition split_tail :: "string \<Rightarrow> string \<Rightarrow> string \<Rightarrow> ParseResult" where
  "split_tail sch loc u =
     (let frag = (if CHR ''#'' \<in> set u then after_first CHR ''#'' u else []);
          u1 = (if CHR ''#'' \<in> set u then before_first CHR ''#'' u else u);
          qry = (if CHR ''?'' \<in> set u1 then after_first CHR ''?'' u1 else []);
          u2 = (if CHR ''?'' \<in> set u1 then before_first CHR ''?'' u1 else u1)
      in \<lparr>scheme = sch, netloc = loc, path = u2, params = [], query = qry, fragment = frag\<rparr>)"

definition urlsplit :: "lib \<Rightarrow> string \<Rightarrow> error + ParseResult" where
  "urlsplit L url0 =
     (let url1 = dropWhile c0_control_or_space url0;
          url2 = filter (\<lambda>c. \<not> unsafe_url_byte c) url1;
          pre = before_first CHR '':'' url2;
          has_scheme = (CHR '':'' \<in> set url2 \<and> pre \<noteq> [] \<and> ascii_alpha (hd url2)
                        \<and> list_all (\<lambda>c. c \<in> set scheme_chars) pre);
          sch = (if has_scheme then lower pre else []);
          url3 = (if has_scheme then after_first CHR '':'' url2 else url2)
      in if take 2 url3 = ''//'' then
           (let rest = drop 2 url3;
                loc = takeWhile netloc_char rest;
                url4 = dropWhile netloc_char rest
            in if (CHR ''['' \<in> set loc \<and> CHR '']'' \<notin> set loc)
                  \<or> (CHR '']'' \<in> set loc \<and> CHR ''['' \<notin> set loc) then Inl ValueError
               else if CHR ''['' \<in> set loc \<and> CHR '']'' \<in> set loc
                       \<and> \<not> valid_bracketed_host L
                             (before_first CHR '']'' (after_first CHR ''['' loc)) then Inl ValueError
               else Inr (split_tail sch loc url4))
         else Inr (split_tail sch [] url3))"

text \<open>\<^verbatim>\<open>_splitparams\<close>: the parameters are cut from the last path segment only.\<close>

definition splitparams :: "string \<Rightarrow> string \<times> string" where
  "splitparams u =
     (let seg = after_last CHR ''/'' u
      in if CHR '';'' \<in> set seg
         then (upto_last CHR ''/'' u @ before_first CHR '';'' seg, after_first CHR '';'' seg)
         else (u, []))"

definition urlparse :: "lib \<Rightarrow> string \<Rightarrow> error + ParseResult" where
  "urlparse L u =
     (case urlsplit L u of
        Inl e \<Rightarrow> Inl e
      | Inr r \<Rightarrow>
          if scheme r \<in> set uses_params \<and> CHR '';'' \<in> set (path r)
          then Inr (r\<lparr>path := fst (splitparams (path r)), params := snd (splitparams (path r))\<rparr>)
          else Inr r)"

section \<open>The source resolver\<close>

subsection \<open>Posts\<close>

text \<open>
  A post as the resolver reads it. Each field holds what the attribute access of the
  source comes back with:
  \<^item> \<open>s_url\<close>: \<^verbatim>\<open>submission.url\<close>, \<open>None\<close> when it is \<^verbatim>\<open>None\<close>;
  \<^item> \<open>is_gallery\<close>: \<^verbatim>\<open>getattr(submission, "is_gallery", False)\<close>;
  \<^item> \<open>media_metadata\<close>: the dictionary from media id to metadata, \<open>None\<close> when the
    attribute is \<^verbatim>\<open>None\<close> or missing (the test on line 118 is false or raises inside
    the \<^verbatim>\<open>try\<close>; no URL is added either way);
  \<^item> \<open>gallery_data\<close>: \<^verbatim>\<open>submission.gallery_data["items"]\<close>, \<open>None\<close> when that
    expression raises;
  \<^item> \<open>preview\<close>: \<^verbatim>\<open>submission.preview["images"]\<close>, \<open>None\<close> when the attribute is
    missing, empty or has no \<^verbatim>\<open>"images"\<close>.
\<close>

record media_meta =
  s_u :: "string option"  \<comment> \<open>\<^verbatim>\<open>(meta.get("s") or {}).get("u")\<close>: the source representation\<close>
  p_u :: "string list"  \<comment> \<open>the URLs of the \<^verbatim>\<open>"p"\<close> preview representations; never read\<close>

record gallery_item =
  media_id :: "string option"  \<comment> \<open>\<open>None\<close>: the item has no \<^verbatim>\<open>"media_id"\<close> (\<^verbatim>\<open>KeyError\<close>)\<close>

datatype preview_image =
    NullSource  \<comment> \<open>\<^verbatim>\<open>"source": null\<close>: \<^verbatim>\<open>.get("url")\<close> raises \<^verbatim>\<open>AttributeError\<close>\<close>
  | Image "string option"  \<comment> \<open>\<^verbatim>\<open>img.get("source", {}).get("url")\<close>\<close>

record submission =
  sub_id :: string
  s_url :: "string option"
  is_gallery :: bool
  media_metadata :: "(string \<times> media_meta) list option"
  gallery_data :: "gallery_item list option"
  preview :: "preview_image list option"

subsection \<open>Canonical form\<close>

definition REDDIT_IMAGE_HOSTS :: "string list" where
  "REDDIT_IMAGE_HOSTS = [''i.redd.it'', ''preview.redd.it'', ''i.reddituploads.com'']"

definition normalize_reddit_image_url :: "lib \<Rightarrow> string \<Rightarrow> string" where
  "normalize_reddit_image_url L u =
     (case urlparse L u of
        Inl e \<Rightarrow> u
      | Inr p \<Rightarrow>
          (let host = lower (netloc p)
           in if host \<in> set REDDIT_IMAGE_HOSTS then scheme p @ ''://'' @ host @ path p else u))"

subsection \<open>The four rules\<close>

definition http_source :: "string option \<Rightarrow> bool" where
  "http_source src = (case src of None \<Rightarrow> False | Some u \<Rightarrow> u \<noteq> [] \<and> startswith u ''http'')"

definition unescape_amp :: "string \<Rightarrow> string" where
  "unescape_amp u = py_replace ''&amp;'' ''&'' u"

text \<open>
  Lines 119--124. A missing \<^verbatim>\<open>"media_id"\<close> raises inside the \<^verbatim>\<open>try\<close>: the loop stops
  and the URLs appended so far stay.
\<close>

fun gallery_loop :: "(string \<times> media_meta) list \<Rightarrow> gallery_item list \<Rightarrow> string list \<Rightarrow> string list" where
  "gallery_loop mm [] urls = urls"
| "gallery_loop mm (item # items) urls =
     (case media_id item of
        None \<Rightarrow> urls
      | Some mid \<Rightarrow>
          (let src = (case map_of mm mid of None \<Rightarrow> None | Some meta \<Rightarrow> s_u meta)
           in gallery_loop mm items
                (if http_source src then urls @ [unescape_amp (the src)] else urls)))"

definition gallery_rule :: "submission \<Rightarrow> string list" where
  "gallery_rule s =
     (case media_metadata s of
        None \<Rightarrow> []
      | Some mm \<Rightarrow>
          if is_gallery s \<and> mm \<noteq> [] then
            (case gallery_data s of None \<Rightarrow> [] | Some items \<Rightarrow> gallery_loop mm items [])
          else [])"

definition submitted_url :: "submission \<Rightarrow> string" where
  "submitted_url s = (case s_url s of None \<Rightarrow> [] | Some u \<Rightarrow> u)"

text \<open>Lines 131--137. \<^verbatim>\<open>urlparse\<close> is called outside any \<^verbatim>\<open>try\<close>: its error leaves the resolver.\<close>

definition reddit_media_rule :: "lib \<Rightarrow> submission \<Rightarrow> string list \<Rightarrow> error + string list" where
  "reddit_media_rule L s urls =
     (if urls = [] then
        (let u = submitted_url s
         in if startswith u ''http'' then
              (case urlparse L u of
                 Inl e \<Rightarrow> Inl e
               | Inr p \<Rightarrow> Inr (if lower (netloc p) \<in> set REDDIT_IMAGE_HOSTS then urls @ [u] else urls))
            else Inr urls)
      else Inr urls)"

definition IMAGE_EXTENSIONS :: "string list" where
  "IMAGE_EXTENSIONS = [''.jpg'', ''.jpeg'', ''.png'', ''.gif'', ''.webp'']"

definition direct_link_rule :: "submission \<Rightarrow> string list \<Rightarrow> string list" where
  "direct_link_rule s urls =
     (if urls = [] then
        (let u = submitted_url s
         in if startswith (lower u) ''http'' \<and> list_ex (\<lambda>ext. endswith (lower u) ext) IMAGE_EXTENSIONS
            then urls @ [u] else urls)
      else urls)"

text \<open>Lines 149--153: the first usable source, then \<^verbatim>\<open>break\<close>. A null source raises; nothing was added.\<close>

fun preview_loop :: "preview_image list \<Rightarrow> string list" where
  "preview_loop [] = []"
| "preview_loop (NullSource # imgs) = []"
| "preview_loop (Image src # imgs) =
     (if http_source src then [unescape_amp (the src)] else preview_loop imgs)"

definition preview_rule :: "submission \<Rightarrow> string list \<Rightarrow> string list" where
  "preview_rule s urls =
     (if urls = [] then (case preview s of None \<Rightarrow> urls | Some imgs \<Rightarrow> urls @ preview_loop imgs)
      else urls)"

text \<open>Lines 158--164.\<close>

fun dedupe_loop :: "lib \<Rightarrow> string list \<Rightarrow> string list \<Rightarrow> string set \<Rightarrow> string list" where
  "dedupe_loop L [] deduped seen = deduped"
| "dedupe_loop L (x # xs) deduped seen =
     (let canon = normalize_reddit_image_url L x
      in if canon \<notin> seen then dedupe_loop L xs (deduped @ [x]) (insert canon seen)
         else dedupe_loop L xs deduped seen)"

definition get_image_urls_from_submission :: "lib \<Rightarrow> submission \<Rightarrow> error + string list" where
  "get_image_urls_from_submission L s =
     (case reddit_media_rule L s (gallery_rule s) of
        Inl e \<Rightarrow> Inl e
      | Inr urls \<Rightarrow> Inr (dedupe_loop L (preview_rule s (direct_link_rule s urls)) [] {}))"

subsection \<open>What the specification calls the per-item source URLs\<close>

text \<open>
  The specification's rule 1 speaks of ``the source representation URL for every gallery
  item, in gallery order'': the source URL recorded for each item's media id, for the
  items that have one.
\<close>

definition gallery_source_urls :: "(string \<times> media_meta) list \<Rightarrow> gallery_item list \<Rightarrow> string list" where
  "gallery_source_urls mm items =
     List.map_filter
       (\<lambda>item. case media_id item of
                 None \<Rightarrow> None
               | Some mid \<Rightarrow> (case map_of mm mid of None \<Rightarrow> None | Some meta \<Rightarrow> s_u meta))
       items"

text \<open>The guard of lines 123 and 151 on a source URL that is present.\<close>

definition usable :: "string \<Rightarrow> bool" where
  "usable u = (u \<noteq> [] \<and> startswith u ''http'')"

text \<open>Every source URL recorded in the media metadata, and every one in the preview structure.\<close>

definition metadata_sources :: "submission \<Rightarrow> string list" where
  "metadata_sources s =
     (case media_metadata s of None \<Rightarrow> [] | Some mm \<Rightarrow> List.map_filter (\<lambda>(k, meta). s_u meta) mm)"

definition preview_sources :: "submission \<Rightarrow> string list" where
  "preview_sources s =
     (case preview s of
        None \<Rightarrow> []
      | Some imgs \<Rightarrow> List.map_filter (\<lambda>img. case img of NullSource \<Rightarrow> None | Image src \<Rightarrow> src) imgs)"

section \<open>Durable storage\<close>

text \<open>
  The state file holds JSON. A value is what \<^verbatim>\<open>json.load\<close> returns; a dictionary keeps
  its keys in insertion order.
\<close>

datatype json =
    JNull | JBool bool | JNum int | JStr string
  | JList "json list" | JDict "(string \<times> json) list"

text \<open>
  File contents are told apart by what \<^verbatim>\<open>json.load\<close> does with them: \<open>Doc v\<close> is the
  text of a JSON document, read back as \<open>v\<close>; \<open>Bytes b\<close> is anything else (image
  data, damaged text, the beginning of a document whose end was never written), on which
  \<^verbatim>\<open>json.load\<close> raises. The file system maps a path to a file or a directory; paths are
  plain names, no two of which denote the same file, and parent directories are not
  looked at.
\<close>

datatype content = Bytes string | Doc json

datatype node = File content | Dir

type_synonym filesystem = "string \<Rightarrow> node option"

text \<open>\<^verbatim>\<open>os.path.join\<close> of two components (POSIX).\<close>

definition path_join :: "string \<Rightarrow> string \<Rightarrow> string" where
  "path_join a b =
     (if startswith b ''/'' then b
      else if a = [] \<or> endswith a ''/'' then a @ b
      else a @ ''/'' @ b)"

text \<open>\<open>HOME\<close> stands for the expanded home directory of line 30.\<close>

definition HOME :: string where
  "HOME = ''~''"

definition SAVE_DIR :: string where
  "SAVE_DIR = path_join HOME ''texting_theory_screenshots''"

definition STATE_PATH :: string where
  "STATE_PATH = path_join SAVE_DIR ''.download_state.json''"


text \<open>\<^verbatim>\<open>open(p)\<close> followed by \<^verbatim>\<open>json.load\<close>.\<close>

definition load_json :: "filesystem \<Rightarrow> string \<Rightarrow> error + json" where
  "load_json fs p =
     (case fs p of
        None \<Rightarrow> Inl OSError
      | Some Dir \<Rightarrow> Inl OSError
      | Some (File (Bytes b)) \<Rightarrow> Inl ValueError
      | Some (File (Doc v)) \<Rightarrow> Inr v)"

text \<open>
  \<^verbatim>\<open>os.rename\<close> and \<^verbatim>\<open>os.replace\<close> on POSIX: the destination is replaced in one step;
  a file cannot be moved onto a directory, nor a directory onto a file.
\<close>

definition os_rename :: "filesystem \<Rightarrow> string \<Rightarrow> string \<Rightarrow> error + filesystem" where
  "os_rename fs src dst =
     (case fs src of
        None \<Rightarrow> Inl OSError
      | Some (File c) \<Rightarrow>
          (case fs dst of
             Some Dir \<Rightarrow> Inl OSError
           | _ \<Rightarrow> Inr (fs(src := None, dst \<mapsto> File c)))
      | Some Dir \<Rightarrow>
          (case fs dst of
             Some (File c) \<Rightarrow> Inl OSError
           | _ \<Rightarrow> Inr (fs(src := None, dst \<mapsto> Dir))))"

definition os_replace :: "filesystem \<Rightarrow> string \<Rightarrow> string \<Rightarrow> error + filesystem" where
  "os_replace fs src dst = os_rename fs src dst"

text \<open>\<^verbatim>\<open>open(p, "w")\<close> or \<^verbatim>\<open>open(p, "wb")\<close>, the writes and the close.\<close>

definition write_file :: "filesystem \<Rightarrow> string \<Rightarrow> content \<Rightarrow> error + filesystem" where
  "write_file fs p c = (case fs p of Some Dir \<Rightarrow> Inl OSError | _ \<Rightarrow> Inr (fs(p \<mapsto> File c)))"


subsection \<open>The state store\<close>

definition empty_state :: json where
  "empty_state = JDict [(''seen_post_ids'', JList []), (''seen_hashes'', JList [])]"

text \<open>Lines 48--60. The function returns on every path; the renaming may fail and is then skipped.\<close>

definition load_state :: "filesystem \<Rightarrow> filesystem \<times> json" where
  "load_state fs =
     (if fs STATE_PATH = None then (fs, empty_state)
      else
        (case load_json fs STATE_PATH of
           Inr v \<Rightarrow> (fs, v)
         | Inl e \<Rightarrow>
             (case os_rename fs STATE_PATH (STATE_PATH @ ''.corrupt'') of
                Inr fs' \<Rightarrow> (fs', empty_state)
              | Inl e' \<Rightarrow> (fs, empty_state))))"

text \<open>Lines 62--66.\<close>

definition save_state :: "filesystem \<Rightarrow> json \<Rightarrow> error + filesystem" where
  "save_state fs state =
     (let tmp = STATE_PATH @ ''.tmp''
      in case write_file fs tmp (Doc state) of
           Inl e \<Rightarrow> Inl e
         | Inr fs1 \<Rightarrow> os_replace fs1 tmp STATE_PATH)"

text \<open>
  The file system a run of \<open>save_state\<close> leaves behind when the process is killed
  before line 66: before the temporary file is opened, while \<^verbatim>\<open>json.dump\<close> is writing
  (the temporary file holds the text \<open>b\<close> flushed so far, not yet a document), or after
  the \<^verbatim>\<open>with\<close> block has closed the file.
\<close>

datatype kill_point = BeforeOpen | DuringDump string | BeforeReplace

definition save_state_killed :: "kill_point \<Rightarrow> filesystem \<Rightarrow> json \<Rightarrow> filesystem" where
  "save_state_killed k fs state =
     (let tmp = STATE_PATH @ ''.tmp''
      in case k of
           BeforeOpen \<Rightarrow> fs
         | DuringDump b \<Rightarrow> (case write_file fs tmp (Bytes b) of Inl e \<Rightarrow> fs | Inr fs1 \<Rightarrow> fs1)
         | BeforeReplace \<Rightarrow> (case write_file fs tmp (Doc state) of Inl e \<Rightarrow> fs | Inr fs1 \<Rightarrow> fs1))"

section \<open>The fetch-and-dedupe pipeline\<close>

text \<open>What \<^verbatim>\<open>requests.get\<close> hands back: status, the Content-Type header, the whole body.\<close>

record response =
  status_code :: nat
  content_type :: "string option"
  content :: string

definition sha256_bytes :: "lib \<Rightarrow> string \<Rightarrow> string" where
  "sha256_bytes L data = sha256 L data"

definition infer_extension_from_headers :: "string option \<Rightarrow> string \<Rightarrow> string" where
  "infer_extension_from_headers header fallback =
     (let ctype = lower (case header of None \<Rightarrow> [] | Some v \<Rightarrow> v)
      in if contains ctype ''image/png'' then ''.png''
         else if contains ctype ''image/jpeg'' \<or> contains ctype ''image/jpg'' then ''.jpg''
         else if contains ctype ''image/gif'' then ''.gif''
         else if contains ctype ''image/webp'' then ''.webp''
         else fallback)"

definition basename :: "string \<Rightarrow> string" where
  "basename p = after_last CHR ''/'' p"

definition filename_from_url :: "lib \<Rightarrow> string \<Rightarrow> error + string" where
  "filename_from_url L u =
     (case urlparse L u of
        Inl e \<Rightarrow> Inl e
      | Inr p \<Rightarrow> (let name = unquote L (basename (path p)) in Inr (if name = [] then ''image'' else name)))"

text \<open>
  \<^verbatim>\<open>os.path.splitext\<close>: the extension starts at the last dot of the last path component,
  unless only dots come before it in that component.
\<close>

definition splitext :: "string \<Rightarrow> string \<times> string" where
  "splitext p =
     (let name = after_last CHR ''/'' p;
          stem = butlast (upto_last CHR ''.'' name)
      in if CHR ''.'' \<in> set name \<and> list_ex (\<lambda>c. c \<noteq> CHR ''.'') stem
         then (upto_last CHR ''/'' p @ stem, CHR ''.'' # after_last CHR ''.'' name)
         else (p, []))"

text \<open>
  Lines 166--192. The result is an error (the call raised), \<open>None\<close> (duplicate content), or
  the path written and the digest; the file system comes back with it.
\<close>

definition download_and_dedupe ::
  "lib \<Rightarrow> (string \<Rightarrow> error + response) \<Rightarrow> filesystem \<Rightarrow> string \<Rightarrow> string \<Rightarrow> nat \<Rightarrow> string set
     \<Rightarrow> error + filesystem \<times> (string \<times> string) option" where
  "download_and_dedupe L get fs u post_id idx seen_hashes =
     (case get u of
        Inl e \<Rightarrow> Inl e
      | Inr r \<Rightarrow>
          if 400 \<le> status_code r \<and> status_code r < 600 then Inl (HTTPError (status_code r))
          else
            (let file_hash = sha256_bytes L (content r)
             in if file_hash \<in> seen_hashes then Inr (fs, None)
                else
                  (case filename_from_url L u of
                     Inl e \<Rightarrow> Inl e
                   | Inr base \<Rightarrow>
                       (let ext0 = snd (splitext base);
                            ext = (if ext0 = [] then infer_extension_from_headers (content_type r) ''.jpg''
                                   else ext0);
                            fname = post_id @ ''_'' @ str_nat idx @ ext;
                            fpath = path_join SAVE_DIR fname
                        in case write_file fs fpath (Bytes (content r)) of
                             Inl e \<Rightarrow> Inl e
                           | Inr fs' \<Rightarrow> Inr (fs', Some (fpath, file_hash))))))"

text \<open>
  The variables of \<open>main\<close> that the loop changes. \<open>saved\<close> lists the results of
  \<open>download_and_dedupe\<close> that were files, in the order of the ``Saved'' messages.
\<close>

record run_state =
  fs :: filesystem
  seen_post_ids :: "string set"
  seen_hashes :: "string set"
  downloaded :: nat
  skipped_posts :: nat
  skipped_hashes :: nat
  saved :: "(string \<times> string) list"

text \<open>Lines 231--246: one candidate; both \<^verbatim>\<open>except\<close> clauses print and go on.\<close>

definition attempt ::
  "lib \<Rightarrow> (string \<Rightarrow> error + response) \<Rightarrow> string \<Rightarrow> nat \<Rightarrow> string \<Rightarrow> run_state \<Rightarrow> run_state" where
  "attempt L get pid i u st =
     (case download_and_dedupe L get (fs st) u pid i (seen_hashes st) of
        Inl e \<Rightarrow> st
      | Inr (fs', None) \<Rightarrow> st\<lparr>skipped_hashes := skipped_hashes st + 1\<rparr>
      | Inr (fs', Some (fpath, h)) \<Rightarrow>
          st\<lparr>fs := fs', seen_hashes := insert h (seen_hashes st),
             downloaded := downloaded st + 1, saved := saved st @ [(fpath, h)]\<rparr>)"

text \<open>Line 230: \<^verbatim>\<open>enumerate(urls, start=1)\<close>.\<close>

fun candidate_loop ::
  "lib \<Rightarrow> (string \<Rightarrow> error + response) \<Rightarrow> string \<Rightarrow> nat \<Rightarrow> string list \<Rightarrow> run_state \<Rightarrow> run_state" where
  "candidate_loop L get pid i [] st = st"
| "candidate_loop L get pid i (u # urls) st =
     candidate_loop L get pid (i + 1) urls (attempt L get pid i u st)"

text \<open>Lines 216--249: one post. The resolver is called outside any \<^verbatim>\<open>try\<close>.\<close>

definition process_post ::
  "lib \<Rightarrow> (string \<Rightarrow> error + response) \<Rightarrow> submission \<Rightarrow> run_state \<Rightarrow> error + run_state" where
  "process_post L get submission st =
     (let pid = sub_id submission
      in if pid \<in> seen_post_ids st then Inr (st\<lparr>skipped_posts := skipped_posts st + 1\<rparr>)
         else
           (case get_image_urls_from_submission L submission of
              Inl e \<Rightarrow> Inl e
            | Inr urls \<Rightarrow>
                if urls = [] then Inr (st\<lparr>seen_post_ids := insert pid (seen_post_ids st)\<rparr>)
                else
                  (let st' = candidate_loop L get pid 1 urls st
                   in Inr (st'\<lparr>seen_post_ids := insert pid (seen_post_ids st')\<rparr>))))"

fun feed_loop ::
  "lib \<Rightarrow> (string \<Rightarrow> error + response) \<Rightarrow> submission list \<Rightarrow> run_state \<Rightarrow> error + run_state" where
  "feed_loop L get [] st = Inr st"
| "feed_loop L get (submission # rest) st =
     (case process_post L get submission st of
        Inl e \<Rightarrow> Inl e
      | Inr st' \<Rightarrow> feed_loop L get rest st')"

subsection \<open>Reading and writing the state blob\<close>







section \<open>Notions used in the statements\<close>

text \<open>Lines 184--186: the extension \<open>download_and_dedupe\<close> gives a file, from the base name or the header.\<close>

definition extension_for :: "string \<Rightarrow> string option \<Rightarrow> string" where
  "extension_for base header =
     (if snd (splitext base) = [] then infer_extension_from_headers header ''.jpg''
      else snd (splitext base))"

text \<open>
  \<open>adds_files st st' new\<close>: from \<open>st\<close> to \<open>st'\<close> the files \<open>new\<close> were saved, with
  pairwise different digests that were not in the content-hash set, and the set grew by
  exactly these digests.
\<close>

definition adds_files :: "run_state \<Rightarrow> run_state \<Rightarrow> (string \<times> string) list \<Rightarrow> bool" where
  "adds_files st st' new =
     (saved st' = saved st @ new \<and> distinct (map snd new)
      \<and> snd ` set new \<inter> seen_hashes st = {}
      \<and> seen_hashes st' = seen_hashes st \<union> snd ` set new
      \<and> downloaded st' = downloaded st + length new)"

text \<open>
  \<open>saved_at L get pid i urls st k\<close>: in the loop over \<open>urls\<close> started in \<open>st\<close> with
  index \<open>i\<close>, the candidate at position \<open>k\<close> (counted from 0) ends in a saved file:
  \<open>download_and_dedupe\<close>, called in the state the candidates before it have left, returns
  a path and a digest.
\<close>

definition saved_at ::
  "lib \<Rightarrow> (string \<Rightarrow> error + response) \<Rightarrow> string \<Rightarrow> nat \<Rightarrow> string list \<Rightarrow> run_state \<Rightarrow> nat \<Rightarrow> bool" where
  "saved_at L get pid i urls st k =
     (k < length urls \<and>
      (let st_k = candidate_loop L get pid i (take k urls) st
       in case download_and_dedupe L get (fs st_k) (urls ! k) pid (i + k) (seen_hashes st_k) of
            Inr (f, Some res) \<Rightarrow> True
          | _ \<Rightarrow> False))"

text \<open>
  \<open>named_by_position L get pid i urls k entry\<close>: \<open>entry\<close> is the path and digest of the
  file for the candidate at position \<open>k\<close>, and the index in its name is \<open>i + k\<close>.
\<close>

definition named_by_position ::
  "lib \<Rightarrow> (string \<Rightarrow> error + response) \<Rightarrow> string \<Rightarrow> nat \<Rightarrow> string list \<Rightarrow> nat
     \<Rightarrow> string \<times> string \<Rightarrow> bool" where
  "named_by_position L get pid i urls k entry =
     (case get (urls ! k) of
        Inl e \<Rightarrow> False
      | Inr r \<Rightarrow>
          (case filename_from_url L (urls ! k) of
             Inl e \<Rightarrow> False
           | Inr base \<Rightarrow>
               entry = (path_join SAVE_DIR
                          (pid @ ''_'' @ str_nat (i + k) @ extension_for base (content_type r)),
                        sha256 L (content r))))"

section \<open>Example inputs\<close>

definition L0 :: lib where
  "L0 = \<lparr>sha256 = (\<lambda>b. ''#'' @ b), unquote = (\<lambda>n. n), valid_bracketed_host = (\<lambda>h. True)\<rparr>"

definition post_gallery_no_source :: submission where
  "post_gallery_no_source =
     \<lparr>sub_id = ''g1'', s_url = Some ''http://r.x/g'', is_gallery = True,
      media_metadata = Some [(''m1'', \<lparr>s_u = None, p_u = [''http://p.x/t'']\<rparr>)],
      gallery_data = Some [\<lparr>media_id = Some ''m1''\<rparr>],
      preview = Some [Image (Some ''http://p.x/v'')]\<rparr>"

definition post_gallery_two :: submission where
  "post_gallery_two =
     \<lparr>sub_id = ''g2'', s_url = Some ''http://r.x/g'', is_gallery = True,
      media_metadata =
        Some [(''m1'', \<lparr>s_u = Some ''http://i.redd.it/a?w=1&amp;s'', p_u = [''http://p.x/t'']\<rparr>),
              (''m2'', \<lparr>s_u = Some ''http://i.redd.it/b'', p_u = []\<rparr>)],
      gallery_data = Some [\<lparr>media_id = Some ''m1''\<rparr>, \<lparr>media_id = Some ''m2''\<rparr>],
      preview = Some [Image (Some ''http://p.x/v'')]\<rparr>"

definition post_gallery_variants :: submission where
  "post_gallery_variants =
     \<lparr>sub_id = ''g3'', s_url = None, is_gallery = True,
      media_metadata =
        Some [(''m1'', \<lparr>s_u = Some ''http://i.redd.it/a?w=1'', p_u = []\<rparr>),
              (''m2'', \<lparr>s_u = Some ''http://i.redd.it/a?w=2'', p_u = []\<rparr>)],
      gallery_data = Some [\<lparr>media_id = Some ''m1''\<rparr>, \<lparr>media_id = Some ''m2''\<rparr>],
      preview = None\<rparr>"

definition post_link_query_png :: submission where
  "post_link_query_png =
     \<lparr>sub_id = ''l1'', s_url = Some ''http://e.x/v?f=a.png'', is_gallery = False,
      media_metadata = None, gallery_data = None,
      preview = Some [Image (Some ''http://p.x/s'')]\<rparr>"

definition post_link_preview :: submission where
  "post_link_preview =
     \<lparr>sub_id = ''l2'', s_url = Some ''http://e.x/v'', is_gallery = False,
      media_metadata = None, gallery_data = None,
      preview = Some [Image None, Image (Some ''http://p.x/s?a&amp;b'')]\<rparr>"

definition post_native_escaped :: submission where
  "post_native_escaped =
     \<lparr>sub_id = ''n1'', s_url = Some ''http://i.redd.it/a?x&amp;y'', is_gallery = False,
      media_metadata = None, gallery_data = None, preview = None\<rparr>"

definition fs_sidecar_is_dir :: filesystem where
  "fs_sidecar_is_dir = [STATE_PATH \<mapsto> File (Bytes ''{oops''), STATE_PATH @ ''.corrupt'' \<mapsto> Dir]"

definition fs_corrupt :: filesystem where
  "fs_corrupt = [STATE_PATH \<mapsto> File (Bytes ''{oops'')]"

definition state_old :: json where
  "state_old = JDict [(''seen_post_ids'', JList [JStr ''abc'']), (''seen_hashes'', JList [])]"

definition state_new :: json where
  "state_new = JDict [(''seen_post_ids'', JList [JStr ''abc'', JStr ''xyz'']), (''seen_hashes'', JList [])]"

definition fs_with_state :: filesystem where
  "fs_with_state = [STATE_PATH \<mapsto> File (Doc state_old)]"

definition fresh_state :: run_state where
  "fresh_state = \<lparr>fs = Map.empty, seen_post_ids = {}, seen_hashes = {}, downloaded = 0,
     skipped_posts = 0, skipped_hashes = 0, saved = []\<rparr>"

definition get_fails :: "string \<Rightarrow> error + response" where
  "get_fails u = Inl RequestException"

definition get_same_body :: "string \<Rightarrow> error + response" where
  "get_same_body u = Inr \<lparr>status_code = 200, content_type = Some ''image/png'', content = ''AAA''\<rparr>"

definition post_first :: submission where
  "post_first =
     \<lparr>sub_id = ''abc'', s_url = Some ''http://i.redd.it/a.png'', is_gallery = False,
      media_metadata = None, gallery_data = None, preview = None\<rparr>"

definition post_second :: submission where
  "post_second =
     \<lparr>sub_id = ''xyz'', s_url = Some ''http://e.x/b.jpg'', is_gallery = False,
      media_metadata = None, gallery_data = None, preview = None\<rparr>"

definition post_bad_bracket :: submission where
  "post_bad_bracket =
     \<lparr>sub_id = ''b1'', s_url = Some ''http://[x'', is_gallery = False,
      media_metadata = None, gallery_data = None, preview = None\<rparr>"

definition get_first_third :: "string \<Rightarrow> error + response" where
  "get_first_third u =
     (if u = ''http://i.redd.it/a.png''
      then Inr \<lparr>status_code = 200, content_type = None, content = ''A''\<rparr>
      else if u = ''http://i.redd.it/c.png''
      then Inr \<lparr>status_code = 200, content_type = None, content = ''C''\<rparr>
      else Inl RequestException)"

definition post_gallery_three :: submission where
  "post_gallery_three =
     \<lparr>sub_id = ''g9'', s_url = None, is_gallery = True,
      media_metadata =
        Some [(''m1'', \<lparr>s_u = Some ''http://i.redd.it/a.png'', p_u = []\<rparr>),
              (''m2'', \<lparr>s_u = Some ''http://i.redd.it/b'', p_u = []\<rparr>),
              (''m3'', \<lparr>s_u = Some ''http://i.redd.it/c.png'', p_u = []\<rparr>)],
      gallery_data = Some [\<lparr>media_id = Some ''m1''\<rparr>, \<lparr>media_id = Some ''m2''\<rparr>,
                           \<lparr>media_id = Some ''m3''\<rparr>],
      preview = None\<rparr>"

section \<open>Properties of the resolver\<close>

lemma http_source_Some: "http_source (Some u) = usable u"
  by (simp add: http_source_def usable_def)

lemma http_source_None: "\<not> http_source None"
  by (simp add: http_source_def)

lemma gallery_loop_eq:
  "\<forall>item\<in>set items. media_id item \<noteq> None \<Longrightarrow>
   gallery_loop mm items urls =
     urls @ map unescape_amp (filter usable (gallery_source_urls mm items))"
proof (induction items arbitrary: urls)
  case Nil
  then show ?case by (simp add: gallery_source_urls_def)
next
  case (Cons item items)
  from Cons.prems obtain mid where mid: "media_id item = Some mid" by auto
  have rest: "\<forall>i\<in>set items. media_id i \<noteq> None" using Cons.prems by simp
  show ?case
  proof (cases "map_of mm mid")
    case None
    then show ?thesis using mid Cons.IH [OF rest]
      by (simp add: gallery_source_urls_def http_source_None)
  next
    case (Some meta)
    then show ?thesis using mid Cons.IH [OF rest]
      by (cases "s_u meta")
         (simp_all add: gallery_source_urls_def http_source_None http_source_Some)
  qed
qed

lemma dedupe_loop_filter:
  "filter (\<lambda>x. normalize_reddit_image_url L x = c) (dedupe_loop L xs deduped seen) =
     filter (\<lambda>x. normalize_reddit_image_url L x = c) deduped @
     (if c \<in> seen then []
      else (case find (\<lambda>x. normalize_reddit_image_url L x = c) xs of None \<Rightarrow> [] | Some y \<Rightarrow> [y]))"
  by (induction xs arbitrary: deduped seen) (auto simp: Let_def split: option.splits)

lemma dedupe_loop_set: "set (dedupe_loop L xs deduped seen) \<subseteq> set deduped \<union> set xs"
proof (induction xs arbitrary: deduped seen)
  case Nil
  then show ?case by simp
next
  case (Cons a xs)
  show ?case
    using Cons.IH [of "deduped @ [a]" "insert (normalize_reddit_image_url L a) seen"]
      Cons.IH [of deduped seen]
    by (auto simp: Let_def)
qed

lemma dedupe_loop_distinct:
  "distinct (map (normalize_reddit_image_url L) xs) \<Longrightarrow>
   normalize_reddit_image_url L ` set xs \<inter> seen = {} \<Longrightarrow>
   dedupe_loop L xs deduped seen = deduped @ xs"
  by (induction xs arbitrary: deduped seen) (auto simp: Let_def)

lemma resolver_of_gallery:
  "gallery_rule s \<noteq> [] \<Longrightarrow>
   get_image_urls_from_submission L s = Inr (dedupe_loop L (gallery_rule s) [] {})"
  by (simp add: get_image_urls_from_submission_def reddit_media_rule_def direct_link_rule_def
      preview_rule_def)

text \<open>
  Claim C2 as stated fails: a post flagged as a gallery, with per-item metadata, whose
  only item has no source representation. The per-item source URLs are the empty list,
  yet the resolver falls through to the preview rule and emits the preview URL.
\<close>

theorem gallery_without_source_emits_preview:
  "is_gallery post_gallery_no_source
   \<and> media_metadata post_gallery_no_source = Some [(''m1'', \<lparr>s_u = None, p_u = [''http://p.x/t'']\<rparr>)]
   \<and> gallery_data post_gallery_no_source = Some [\<lparr>media_id = Some ''m1''\<rparr>]
   \<and> preview post_gallery_no_source = Some [Image (Some ''http://p.x/v'')]
   \<and> gallery_source_urls [(''m1'', \<lparr>s_u = None, p_u = [''http://p.x/t'']\<rparr>)] [\<lparr>media_id = Some ''m1''\<rparr>] = []
   \<and> get_image_urls_from_submission L0 post_gallery_no_source = Inr [''http://p.x/v'']"
  by code_simp

text \<open>
  Claim C2, amended: for a post flagged as a gallery, with per-item metadata, whose items
  all carry a media id and of which at least one has a source URL starting with
  \<open>http\<close>, the resolver emits those source URLs in gallery order, each with its
  escaped ampersands decoded, canonical duplicates collapsed to the first; every emitted
  URL is such a source URL, and when the canonical forms are distinct the emitted list is
  the whole list of them.
\<close>

theorem gallery_emits_sources:
  assumes "is_gallery s" and "media_metadata s = Some mm" and "mm \<noteq> []"
    and "gallery_data s = Some items"
    and "\<forall>item\<in>set items. media_id item \<noteq> None"
    and "srcs = filter usable (gallery_source_urls mm items)" and "srcs \<noteq> []"
  shows "\<exists>out. get_image_urls_from_submission L s = Inr out
           \<and> out = dedupe_loop L (map unescape_amp srcs) [] {}
           \<and> set out \<subseteq> unescape_amp ` set srcs
           \<and> (distinct (map (\<lambda>u. normalize_reddit_image_url L (unescape_amp u)) srcs)
                \<longrightarrow> out = map unescape_amp srcs)"
proof -
  have g: "gallery_rule s = map unescape_amp srcs"
    using assms by (simp add: gallery_rule_def gallery_loop_eq)
  then have ne: "gallery_rule s \<noteq> []" using assms(7) by simp
  have r: "get_image_urls_from_submission L s = Inr (dedupe_loop L (map unescape_amp srcs) [] {})"
    using resolver_of_gallery [OF ne] g by simp
  have sub: "set (dedupe_loop L (map unescape_amp srcs) [] {}) \<subseteq> unescape_amp ` set srcs"
    using dedupe_loop_set [of L "map unescape_amp srcs" "[]" "{}"] by simp
  have dis: "distinct (map (\<lambda>u. normalize_reddit_image_url L (unescape_amp u)) srcs)
               \<Longrightarrow> dedupe_loop L (map unescape_amp srcs) [] {} = map unescape_amp srcs"
    using dedupe_loop_distinct [of L "map unescape_amp srcs" "{}" "[]"] by (simp add: comp_def)
  show ?thesis using r sub dis by simp
qed

theorem gallery_emits_sources_witness:
  "is_gallery post_gallery_two
   \<and> preview post_gallery_two = Some [Image (Some ''http://p.x/v'')]
   \<and> get_image_urls_from_submission L0 post_gallery_two
       = Inr [''http://i.redd.it/a?w=1&s'', ''http://i.redd.it/b'']"
proof -
  let ?mm = "[(''m1'', \<lparr>s_u = Some ''http://i.redd.it/a?w=1&amp;s'', p_u = [''http://p.x/t'']\<rparr>),
              (''m2'', \<lparr>s_u = Some ''http://i.redd.it/b'', p_u = []\<rparr>)]"
  let ?items = "[\<lparr>media_id = Some ''m1''\<rparr>, \<lparr>media_id = Some ''m2''\<rparr>]"
  let ?srcs = "[''http://i.redd.it/a?w=1&amp;s'', ''http://i.redd.it/b'']"
  have h1: "is_gallery post_gallery_two" by (simp add: post_gallery_two_def)
  have h2: "media_metadata post_gallery_two = Some ?mm" by (simp add: post_gallery_two_def)
  have h3: "?mm \<noteq> []" by simp
  have h4: "gallery_data post_gallery_two = Some ?items" by (simp add: post_gallery_two_def)
  have h5: "\<forall>item\<in>set ?items. media_id item \<noteq> None" by simp
  have h6: "?srcs = filter usable (gallery_source_urls ?mm ?items)" by code_simp
  have h7: "?srcs \<noteq> []" by simp
  have h8: "distinct (map (\<lambda>u. normalize_reddit_image_url L0 (unescape_amp u)) ?srcs)" by code_simp
  have h9: "map unescape_amp ?srcs = [''http://i.redd.it/a?w=1&s'', ''http://i.redd.it/b'']" by code_simp
  have h10: "preview post_gallery_two = Some [Image (Some ''http://p.x/v'')]" by (simp add: post_gallery_two_def)
  from gallery_emits_sources [OF h1 h2 h3 h4 h5 h6 h7, of L0] h8 h9 h1 h10 show ?thesis by simp
qed

lemma gallery_rule_not_gallery: "\<not> is_gallery s \<Longrightarrow> gallery_rule s = []"
  by (simp add: gallery_rule_def split: option.splits)

lemma preview_loop_first:
  "\<forall>img\<in>set before. \<exists>v. img = Image v \<and> \<not> http_source v \<Longrightarrow> usable src \<Longrightarrow>
   preview_loop (before @ Image (Some src) # after) = [unescape_amp src]"
proof (induction before)
  case Nil
  then show ?case by (simp add: http_source_Some)
next
  case (Cons img before)
  then obtain v where "img = Image v" and "\<not> http_source v" by auto
  then show ?case using Cons by simp
qed

text \<open>
  Claim C5 as stated fails: a post that is no gallery, whose submitted URL has a host
  outside the native image hosts and the path \<open>/v\<close>, which ends in no image
  extension, and which has a preview image with a source URL. The resolver tests the
  extension on the whole URL text, query string included, so rule 3 emits the submitted
  URL and the preview source is not emitted.
\<close>

theorem link_with_image_query_emits_link:
  "\<not> is_gallery post_link_query_png
   \<and> urlparse L0 (submitted_url post_link_query_png)
       = Inr \<lparr>scheme = ''http'', netloc = ''e.x'', path = ''/v'', params = [],
              query = ''f=a.png'', fragment = []\<rparr>
   \<and> lower ''e.x'' \<notin> set REDDIT_IMAGE_HOSTS
   \<and> \<not> list_ex (\<lambda>ext. endswith (lower ''/v'') ext) IMAGE_EXTENSIONS
   \<and> preview post_link_query_png = Some [Image (Some ''http://p.x/s'')]
   \<and> get_image_urls_from_submission L0 post_link_query_png = Inr [''http://e.x/v?f=a.png'']"
  by code_simp

text \<open>
  Claim C5, amended: for a post that is no gallery, whose submitted URL parses with a
  host outside the native image hosts and whose whole URL text, lower-cased, ends in no
  recognised image extension, and whose preview structure has an image with a source URL
  starting with \<open>http\<close>, no earlier image having a null source or such a URL, the
  resolver emits exactly one location: that first source URL, its escaped ampersands
  decoded.
\<close>

theorem preview_fallback:
  assumes "\<not> is_gallery s"
    and "urlparse L (submitted_url s) = Inr p"
    and "lower (netloc p) \<notin> set REDDIT_IMAGE_HOSTS"
    and "\<not> list_ex (\<lambda>ext. endswith (lower (submitted_url s)) ext) IMAGE_EXTENSIONS"
    and "preview s = Some (before @ Image (Some src) # after)"
    and "usable src"
    and "\<forall>img\<in>set before. \<exists>v. img = Image v \<and> \<not> http_source v"
  shows "get_image_urls_from_submission L s = Inr [unescape_amp src]"
proof -
  have g: "gallery_rule s = []" using assms(1) by (rule gallery_rule_not_gallery)
  have r2: "reddit_media_rule L s [] = Inr []"
    using assms(2,3) by (simp add: reddit_media_rule_def Let_def)
  have r3: "direct_link_rule s [] = []"
    using assms(4) by (simp add: direct_link_rule_def Let_def)
  have r4: "preview_rule s [] = [unescape_amp src]"
    using assms(5) preview_loop_first [OF assms(7) assms(6)] by (simp add: preview_rule_def)
  show ?thesis
    by (simp add: get_image_urls_from_submission_def g r2 r3 r4)
qed

theorem preview_fallback_witness:
  "\<not> is_gallery post_link_preview
   \<and> preview post_link_preview = Some [Image None, Image (Some ''http://p.x/s?a&amp;b'')]
   \<and> get_image_urls_from_submission L0 post_link_preview = Inr [''http://p.x/s?a&b'']"
proof -
  have h1: "\<not> is_gallery post_link_preview" by (simp add: post_link_preview_def)
  have h2: "urlparse L0 (submitted_url post_link_preview)
              = Inr \<lparr>scheme = ''http'', netloc = ''e.x'', path = ''/v'', params = [],
                     query = [], fragment = []\<rparr>" by code_simp
  have h3: "lower (netloc \<lparr>scheme = ''http'', netloc = ''e.x'', path = ''/v'', params = [],
                     query = [], fragment = []\<rparr>) \<notin> set REDDIT_IMAGE_HOSTS" by code_simp
  have h4: "\<not> list_ex (\<lambda>ext. endswith (lower (submitted_url post_link_preview)) ext) IMAGE_EXTENSIONS"
    by code_simp
  have h5: "preview post_link_preview = Some ([Image None] @ Image (Some ''http://p.x/s?a&amp;b'') # [])"
    by (simp add: post_link_preview_def)
  have h6: "usable ''http://p.x/s?a&amp;b''" by code_simp
  have h7: "\<forall>img\<in>set [Image None]. \<exists>v. img = Image v \<and> \<not> http_source v"
    by (simp add: http_source_None)
  have h8: "unescape_amp ''http://p.x/s?a&amp;b'' = ''http://p.x/s?a&b''" by code_simp
  from preview_fallback [OF h1 h2 h3 h4 h5 h6 h7] h1 h5 h8 show ?thesis by simp
qed

text \<open>
  Claim C6: two URLs emitted by the gallery rule that parse to the same scheme, network
  location and path (they differ in the query string only), on a native image host, have
  the same canonical form scheme, host, path; of the URLs with that canonical form the
  resolver's output keeps exactly one, the first occurrence with its original text.
\<close>

theorem canonical_dedupe:
  assumes "urlparse L u1 = Inr p1" and "urlparse L u2 = Inr p2"
    and "scheme p1 = scheme p2" and "netloc p1 = netloc p2" and "path p1 = path p2"
    and "lower (netloc p1) \<in> set REDDIT_IMAGE_HOSTS"
    and "gallery_rule s = xs @ u1 # ys @ u2 # zs"
    and "\<forall>x\<in>set xs. normalize_reddit_image_url L x \<noteq> normalize_reddit_image_url L u1"
  shows "normalize_reddit_image_url L u1 = scheme p1 @ ''://'' @ lower (netloc p1) @ path p1
       \<and> normalize_reddit_image_url L u2 = normalize_reddit_image_url L u1
       \<and> (\<exists>out. get_image_urls_from_submission L s = Inr out
             \<and> filter (\<lambda>x. normalize_reddit_image_url L x = normalize_reddit_image_url L u1) out = [u1]
             \<and> (u2 \<noteq> u1 \<longrightarrow> u2 \<notin> set out))"
proof -
  let ?N = "normalize_reddit_image_url L"
  have n1: "?N u1 = scheme p1 @ ''://'' @ lower (netloc p1) @ path p1"
    using assms(1,6) by (simp add: normalize_reddit_image_url_def Let_def)
  have n2: "?N u2 = ?N u1"
    using assms(1-6) by (simp add: normalize_reddit_image_url_def Let_def)
  have ne: "gallery_rule s \<noteq> []" using assms(7) by simp
  have r: "get_image_urls_from_submission L s
             = Inr (dedupe_loop L (xs @ u1 # ys @ u2 # zs) [] {})"
    using resolver_of_gallery [OF ne] assms(7) by simp
  have fnd: "find (\<lambda>x. ?N x = ?N u1) (xs @ u1 # ys @ u2 # zs) = Some u1"
    using assms(8) by (induction xs) auto
  have f: "filter (\<lambda>x. ?N x = ?N u1) (dedupe_loop L (xs @ u1 # ys @ u2 # zs) [] {}) = [u1]"
    using dedupe_loop_filter [of L "?N u1" "xs @ u1 # ys @ u2 # zs" "[]" "{}"] fnd by simp
  have "u2 \<noteq> u1 \<longrightarrow> u2 \<notin> set (dedupe_loop L (xs @ u1 # ys @ u2 # zs) [] {})"
  proof
    assume d: "u2 \<noteq> u1"
    show "u2 \<notin> set (dedupe_loop L (xs @ u1 # ys @ u2 # zs) [] {})"
    proof
      assume "u2 \<in> set (dedupe_loop L (xs @ u1 # ys @ u2 # zs) [] {})"
      then have "u2 \<in> set (filter (\<lambda>x. ?N x = ?N u1) (dedupe_loop L (xs @ u1 # ys @ u2 # zs) [] {}))"
        using n2 by simp
      then show False using f d by simp
    qed
  qed
  then show ?thesis using n1 n2 r f by simp
qed

theorem canonical_dedupe_witness:
  "normalize_reddit_image_url L0 ''http://i.redd.it/a?w=1'' = ''http://i.redd.it/a''
   \<and> normalize_reddit_image_url L0 ''http://i.redd.it/a?w=2'' = ''http://i.redd.it/a''
   \<and> get_image_urls_from_submission L0 post_gallery_variants = Inr [''http://i.redd.it/a?w=1'']"
proof -
  let ?p1 = "\<lparr>scheme = ''http'', netloc = ''i.redd.it'', path = ''/a'', params = [],
              query = ''w=1'', fragment = []\<rparr>"
  let ?p2 = "\<lparr>scheme = ''http'', netloc = ''i.redd.it'', path = ''/a'', params = [],
              query = ''w=2'', fragment = []\<rparr>"
  have h1: "urlparse L0 ''http://i.redd.it/a?w=1'' = Inr ?p1" by code_simp
  have h2: "urlparse L0 ''http://i.redd.it/a?w=2'' = Inr ?p2" by code_simp
  have h3: "scheme ?p1 = scheme ?p2" by simp
  have h4: "netloc ?p1 = netloc ?p2" by simp
  have h5: "path ?p1 = path ?p2" by simp
  have h6: "lower (netloc ?p1) \<in> set REDDIT_IMAGE_HOSTS" by code_simp
  have h7: "gallery_rule post_gallery_variants
              = [] @ ''http://i.redd.it/a?w=1'' # [] @ ''http://i.redd.it/a?w=2'' # []" by code_simp
  have h8: "\<forall>x\<in>set []. normalize_reddit_image_url L0 x
              \<noteq> normalize_reddit_image_url L0 ''http://i.redd.it/a?w=1''" by simp
  have l: "lower ''i.redd.it'' = ''i.redd.it''" by code_simp
  have d: "''http://i.redd.it/a?w=2'' \<noteq> ''http://i.redd.it/a?w=1''" by simp
  have c: "get_image_urls_from_submission L0 post_gallery_variants = Inr [''http://i.redd.it/a?w=1'']"
    by code_simp
  from canonical_dedupe [OF h1 h2 h3 h4 h5 h6 h7 h8] l c show ?thesis by simp
qed

lemma map_filter_set: "set (List.map_filter f xs) = {y. \<exists>x\<in>set xs. f x = Some y}"
  by (induction xs) (auto simp: map_filter_simps split: option.splits)

lemma gallery_loop_set:
  "set (gallery_loop mm items urls)
     \<subseteq> set urls \<union> unescape_amp ` {u. usable u \<and> (\<exists>k meta. (k, meta) \<in> set mm \<and> s_u meta = Some u)}"
proof (induction items arbitrary: urls)
  case Nil
  then show ?case by simp
next
  case (Cons item items)
  show ?case
  proof (cases "media_id item")
    case None
    then show ?thesis by simp
  next
    case (Some mid)
    show ?thesis
    proof (cases "map_of mm mid")
      case None
      then show ?thesis using Some Cons.IH [of urls] by (simp add: http_source_None)
    next
      case m: (Some meta)
      then have mem: "(mid, meta) \<in> set mm" by (rule map_of_SomeD)
      show ?thesis
      proof (cases "s_u meta")
        case None
        then show ?thesis using Some m Cons.IH [of urls] by (simp add: http_source_None)
      next
        case u: (Some u)
        show ?thesis
        proof (cases "usable u")
          case True
          then show ?thesis
            using Some m u mem Cons.IH [of "urls @ [unescape_amp u]"]
            by (auto simp: http_source_Some)
        next
          case False
          then show ?thesis using Some m u Cons.IH [of urls] by (simp add: http_source_Some)
        qed
      qed
    qed
  qed
qed

lemma gallery_rule_set:
  "set (gallery_rule s) \<subseteq> unescape_amp ` set (filter usable (metadata_sources s))"
proof (cases "media_metadata s")
  case None
  then have "gallery_rule s = []" by (simp add: gallery_rule_def)
  then show ?thesis by simp
next
  case mmS: (Some mm)
  have sub: "{u. usable u \<and> (\<exists>k meta. (k, meta) \<in> set mm \<and> s_u meta = Some u)}
          \<subseteq> set (filter usable (metadata_sources s))"
  proof
    fix u
    assume "u \<in> {u. usable u \<and> (\<exists>k meta. (k, meta) \<in> set mm \<and> s_u meta = Some u)}"
    then obtain k meta where us: "usable u" and mem: "(k, meta) \<in> set mm"
      and su: "s_u meta = Some u" by blast
    have "(\<lambda>(k, meta). s_u meta) (k, meta) = Some u" using su by simp
    then have "u \<in> set (List.map_filter (\<lambda>(k, meta). s_u meta) mm)"
      unfolding map_filter_set using mem by blast
    then show "u \<in> set (filter usable (metadata_sources s))"
      using us mmS by (simp add: metadata_sources_def)
  qed
  have loop: "set (gallery_loop mm items [])
               \<subseteq> unescape_amp ` set (filter usable (metadata_sources s))" for items
  proof -
    have "set (gallery_loop mm items [])
            \<subseteq> unescape_amp ` {u. usable u \<and> (\<exists>k meta. (k, meta) \<in> set mm \<and> s_u meta = Some u)}"
      using gallery_loop_set [of mm items "[]"] by simp
    also have "\<dots> \<subseteq> unescape_amp ` set (filter usable (metadata_sources s))"
      using sub by (rule image_mono)
    finally show ?thesis .
  qed
  show ?thesis
  proof (cases "gallery_data s")
    case None
    then have "gallery_rule s = []" using mmS by (simp add: gallery_rule_def)
    then show ?thesis by simp
  next
    case g: (Some items)
    then have "gallery_rule s = [] \<or> gallery_rule s = gallery_loop mm items []"
      using mmS by (simp add: gallery_rule_def)
    then show ?thesis using loop [of items] by auto
  qed
qed

lemma preview_loop_set:
  "set (preview_loop imgs) \<subseteq> unescape_amp ` {u. usable u \<and> Image (Some u) \<in> set imgs}"
proof (induction imgs rule: preview_loop.induct)
  case 1
  then show ?case by simp
next
  case (2 imgs)
  then show ?case by simp
next
  case (3 src imgs)
  then show ?case by (cases src) (auto simp: http_source_None http_source_Some)
qed

lemma preview_rule_set:
  "set (preview_rule s []) \<subseteq> unescape_amp ` set (filter usable (preview_sources s))"
proof (cases "preview s")
  case None
  then have "preview_rule s [] = []" by (simp add: preview_rule_def)
  then show ?thesis by simp
next
  case (Some imgs)
  have sub: "{u. usable u \<and> Image (Some u) \<in> set imgs} \<subseteq> set (filter usable (preview_sources s))"
  proof
    fix u
    assume "u \<in> {u. usable u \<and> Image (Some u) \<in> set imgs}"
    then have us: "usable u" and mem: "Image (Some u) \<in> set imgs" by simp_all
    have "(case Image (Some u) of NullSource \<Rightarrow> None | Image src \<Rightarrow> src) = Some u" by simp
    then have "u \<in> set (List.map_filter (\<lambda>img. case img of NullSource \<Rightarrow> None | Image src \<Rightarrow> src) imgs)"
      unfolding map_filter_set using mem by blast
    then show "u \<in> set (filter usable (preview_sources s))"
      using us Some by (simp add: preview_sources_def)
  qed
  have "set (preview_loop imgs) \<subseteq> unescape_amp ` {u. usable u \<and> Image (Some u) \<in> set imgs}"
    by (rule preview_loop_set)
  also have "\<dots> \<subseteq> unescape_amp ` set (filter usable (preview_sources s))"
    using sub by (rule image_mono)
  finally have "set (preview_loop imgs) \<subseteq> unescape_amp ` set (filter usable (preview_sources s))" .
  moreover have "preview_rule s [] = preview_loop imgs" using Some by (simp add: preview_rule_def)
  ultimately show ?thesis by simp
qed

text \<open>
  Claim C7 as stated fails: a post whose submitted URL is on a native image host and
  holds an escaped ampersand. Rule 2 emits the URL as it is, and the emitted URL still
  contains \<open>&amp;\<close>.
\<close>

theorem native_url_keeps_escaped_ampersand:
  "get_image_urls_from_submission L0 post_native_escaped = Inr [''http://i.redd.it/a?x&amp;y'']
   \<and> contains ''http://i.redd.it/a?x&amp;y'' ''&amp;''"
  by code_simp

text \<open>
  Claim C7, amended: ampersand decoding belongs to the gallery rule and the preview rule.
  Whatever the resolver returns is either made of gallery source URLs, each with every
  \<open>&amp;\<close> replaced by \<open>&\<close> in one pass from the left, or is the submitted
  URL alone, unchanged (rules 2 and 3), or is made of preview source URLs decoded in the
  same way.
\<close>

theorem ampersand_decoding:
  assumes "get_image_urls_from_submission L s = Inr out"
  shows "(gallery_rule s \<noteq> [] \<and> set out \<subseteq> unescape_amp ` set (filter usable (metadata_sources s)))
       \<or> (gallery_rule s = [] \<and> out = [submitted_url s])
       \<or> (gallery_rule s = [] \<and> set out \<subseteq> unescape_amp ` set (filter usable (preview_sources s)))"
proof (cases "gallery_rule s = []")
  case False
  then have "out = dedupe_loop L (gallery_rule s) [] {}"
    using assms resolver_of_gallery [OF False, of L] by simp
  then have "set out \<subseteq> set (gallery_rule s)"
    using dedupe_loop_set [of L "gallery_rule s" "[]" "{}"] by simp
  then show ?thesis using False gallery_rule_set [of s] by blast
next
  case True
  from assms True obtain urls where r2: "reddit_media_rule L s [] = Inr urls"
    and o: "out = dedupe_loop L (preview_rule s (direct_link_rule s urls)) [] {}"
    by (auto simp: get_image_urls_from_submission_def split: sum.splits)
  have u2: "urls = [] \<or> urls = [submitted_url s]"
    using r2 by (auto simp: reddit_media_rule_def Let_def split: if_splits sum.splits)
  have u3: "direct_link_rule s urls = [] \<or> direct_link_rule s urls = [submitted_url s]"
    using u2 by (auto simp: direct_link_rule_def Let_def)
  show ?thesis
  proof (cases "direct_link_rule s urls = []")
    case e: True
    have "set out \<subseteq> set (preview_rule s [])"
      using o e dedupe_loop_set [of L "preview_rule s []" "[]" "{}"] by simp
    then show ?thesis using True preview_rule_set [of s] by blast
  next
    case False
    then have "direct_link_rule s urls = [submitted_url s]" using u3 by simp
    then have "out = [submitted_url s]" using o by (simp add: preview_rule_def)
    then show ?thesis using True by simp
  qed
qed

theorem ampersand_decoding_witness:
  "get_image_urls_from_submission L0 post_link_preview = Inr [''http://p.x/s?a&b'']
   \<and> gallery_rule post_link_preview = []
   \<and> [''http://p.x/s?a&b''] \<noteq> [submitted_url post_link_preview]
   \<and> set [''http://p.x/s?a&b'']
        \<subseteq> unescape_amp ` set (filter usable (preview_sources post_link_preview))"
proof -
  have h: "get_image_urls_from_submission L0 post_link_preview = Inr [''http://p.x/s?a&b'']"
    by code_simp
  have g: "gallery_rule post_link_preview = []" by code_simp
  have n: "[''http://p.x/s?a&b''] \<noteq> [submitted_url post_link_preview]" by code_simp
  from ampersand_decoding [OF h] g n h show ?thesis by simp
qed

section \<open>Properties of the state store\<close>

lemma tmp_neq_state: "STATE_PATH @ ''.tmp'' \<noteq> STATE_PATH"
  by simp

lemma corrupt_neq_state: "STATE_PATH @ ''.corrupt'' \<noteq> STATE_PATH"
  by simp

lemma load_state_snd_cong:
  "fs1 STATE_PATH = fs2 STATE_PATH \<Longrightarrow> snd (load_state fs1) = snd (load_state fs2)"
  by (simp add: load_state_def load_json_def
      split: option.splits node.splits content.splits sum.splits)

lemma load_state_doc: "fs1 STATE_PATH = Some (File (Doc v)) \<Longrightarrow> load_state fs1 = (fs1, v)"
  by (simp add: load_state_def load_json_def)

text \<open>
  Claim C8 as stated fails: the state file exists and does not parse, and the sidecar
  path is taken by a directory. The renaming fails, the failure is passed over, and
  \<open>load_state\<close> returns the empty state with the damaged file still at the state path
  and nothing of it at the sidecar path.
\<close>

theorem corrupt_state_not_renamed:
  "fs_sidecar_is_dir STATE_PATH = Some (File (Bytes ''{oops''))
   \<and> load_json fs_sidecar_is_dir STATE_PATH = Inl ValueError
   \<and> snd (load_state fs_sidecar_is_dir) = empty_state
   \<and> fst (load_state fs_sidecar_is_dir) STATE_PATH = Some (File (Bytes ''{oops''))
   \<and> fst (load_state fs_sidecar_is_dir) (STATE_PATH @ ''.corrupt'') = Some Dir"
  by (simp add: fs_sidecar_is_dir_def load_state_def load_json_def os_rename_def)

text \<open>
  Claim C8, amended: for every state file that exists and fails to load,
  \<open>load_state\<close> returns (it has no error result) and gives the empty state. It tries
  to rename the file to the sidecar path: when the renaming succeeds the file system
  returned has the file's node at the sidecar path and nothing at the state path; when it
  fails the file system is left as it was. The renaming of a file succeeds whenever the
  sidecar path is not a directory.
\<close>

theorem load_state_corrupt:
  assumes "fs0 STATE_PATH = Some n" and "load_json fs0 STATE_PATH = Inl e"
  shows "snd (load_state fs0) = empty_state
       \<and> (os_rename fs0 STATE_PATH (STATE_PATH @ ''.corrupt'') = Inr fs1 \<longrightarrow>
            fst (load_state fs0) = fs1 \<and> fs1 (STATE_PATH @ ''.corrupt'') = Some n
            \<and> fs1 STATE_PATH = None)
       \<and> (os_rename fs0 STATE_PATH (STATE_PATH @ ''.corrupt'') = Inl e1 \<longrightarrow>
            fst (load_state fs0) = fs0)
       \<and> (n = File c \<and> fs0 (STATE_PATH @ ''.corrupt'') \<noteq> Some Dir \<longrightarrow>
            os_rename fs0 STATE_PATH (STATE_PATH @ ''.corrupt'')
              = Inr (fs0(STATE_PATH := None, STATE_PATH @ ''.corrupt'' \<mapsto> File c)))"
proof -
  have a: "snd (load_state fs0) = empty_state"
    using assms by (simp add: load_state_def split: sum.splits)
  have b: "os_rename fs0 STATE_PATH (STATE_PATH @ ''.corrupt'') = Inr fs1 \<Longrightarrow>
            fst (load_state fs0) = fs1 \<and> fs1 (STATE_PATH @ ''.corrupt'') = Some n
            \<and> fs1 STATE_PATH = None"
    using assms
    by (auto simp: load_state_def os_rename_def split: node.splits option.splits)
  have c: "os_rename fs0 STATE_PATH (STATE_PATH @ ''.corrupt'') = Inl e1 \<Longrightarrow>
            fst (load_state fs0) = fs0"
    using assms by (simp add: load_state_def)
  have d: "n = File c \<and> fs0 (STATE_PATH @ ''.corrupt'') \<noteq> Some Dir \<Longrightarrow>
            os_rename fs0 STATE_PATH (STATE_PATH @ ''.corrupt'')
              = Inr (fs0(STATE_PATH := None, STATE_PATH @ ''.corrupt'' \<mapsto> File c))"
    using assms by (auto simp: os_rename_def split: node.splits option.splits)
  show ?thesis using a b c d by blast
qed

theorem load_state_corrupt_witness:
  "fs_corrupt STATE_PATH = Some (File (Bytes ''{oops''))
   \<and> load_json fs_corrupt STATE_PATH = Inl ValueError
   \<and> snd (load_state fs_corrupt) = empty_state
   \<and> fst (load_state fs_corrupt) (STATE_PATH @ ''.corrupt'') = Some (File (Bytes ''{oops''))
   \<and> fst (load_state fs_corrupt) STATE_PATH = None"
proof -
  let ?fs1 = "fs_corrupt(STATE_PATH := None, STATE_PATH @ ''.corrupt'' \<mapsto> File (Bytes ''{oops''))"
  have h1: "fs_corrupt STATE_PATH = Some (File (Bytes ''{oops''))" by (simp add: fs_corrupt_def)
  have h2: "load_json fs_corrupt STATE_PATH = Inl ValueError"
    by (simp add: fs_corrupt_def load_json_def)
  have h3: "File (Bytes ''{oops'') = File (Bytes ''{oops'') \<and> fs_corrupt (STATE_PATH @ ''.corrupt'') \<noteq> Some Dir"
    by (simp add: fs_corrupt_def)
  have h4: "os_rename fs_corrupt STATE_PATH (STATE_PATH @ ''.corrupt'') = Inr ?fs1"
    by (simp add: fs_corrupt_def os_rename_def)
  from load_state_corrupt [OF h1 h2, of ?fs1 OSError "Bytes ''{oops''"] h1 h2 h3 h4
  show ?thesis by simp
qed

text \<open>
  Claim C9: \<open>save_state\<close> writes the whole document to the temporary path and then
  replaces the state path in one \<open>os_replace\<close> step. Killed at any point before that
  step, it leaves the node at the state path as it was, and \<open>load_state\<close> returns
  what it returned before; what is half written sits at the temporary path only. When
  \<open>save_state\<close> returns, the state path holds the whole document, the temporary path is
  gone and no other path changed.
\<close>

theorem save_state_atomic:
  "save_state_killed k fs0 state STATE_PATH = fs0 STATE_PATH
   \<and> snd (load_state (save_state_killed k fs0 state)) = snd (load_state fs0)
   \<and> (fs0 (STATE_PATH @ ''.tmp'') \<noteq> Some Dir \<longrightarrow>
        save_state_killed BeforeReplace fs0 state (STATE_PATH @ ''.tmp'') = Some (File (Doc state))
        \<and> save_state fs0 state
            = os_replace (save_state_killed BeforeReplace fs0 state) (STATE_PATH @ ''.tmp'') STATE_PATH)
   \<and> (save_state fs0 state = Inr fs1 \<longrightarrow>
        fs1 STATE_PATH = Some (File (Doc state)) \<and> fs1 (STATE_PATH @ ''.tmp'') = None
        \<and> load_state fs1 = (fs1, state)
        \<and> (\<forall>p. p \<noteq> STATE_PATH \<and> p \<noteq> STATE_PATH @ ''.tmp'' \<longrightarrow> fs1 p = fs0 p))"
proof -
  have a: "save_state_killed k fs0 state STATE_PATH = fs0 STATE_PATH"
    by (cases k) (auto simp: save_state_killed_def write_file_def Let_def split: option.splits node.splits)
  have b: "snd (load_state (save_state_killed k fs0 state)) = snd (load_state fs0)"
    using a by (rule load_state_snd_cong)
  have c: "fs0 (STATE_PATH @ ''.tmp'') \<noteq> Some Dir \<Longrightarrow>
        save_state_killed BeforeReplace fs0 state (STATE_PATH @ ''.tmp'') = Some (File (Doc state))
        \<and> save_state fs0 state
            = os_replace (save_state_killed BeforeReplace fs0 state) (STATE_PATH @ ''.tmp'') STATE_PATH"
    by (auto simp: save_state_killed_def save_state_def write_file_def Let_def
        split: option.splits node.splits)
  have d: "fs1 STATE_PATH = Some (File (Doc state)) \<and> fs1 (STATE_PATH @ ''.tmp'') = None
        \<and> (\<forall>p. p \<noteq> STATE_PATH \<and> p \<noteq> STATE_PATH @ ''.tmp'' \<longrightarrow> fs1 p = fs0 p)"
    if s: "save_state fs0 state = Inr fs1"
    using s
    by (auto simp: save_state_def write_file_def os_replace_def os_rename_def Let_def
        split: option.splits node.splits if_splits)
  have e: "load_state fs1 = (fs1, state)" if s: "save_state fs0 state = Inr fs1"
    using d [OF s] by (simp add: load_state_doc)
  show ?thesis using a b c d e by blast
qed

theorem save_state_atomic_witness:
  "snd (load_state (save_state_killed (DuringDump ''{'') fs_with_state state_new)) = state_old
   \<and> save_state_killed (DuringDump ''{'') fs_with_state state_new (STATE_PATH @ ''.tmp'')
       = Some (File (Bytes ''{''))
   \<and> fs_with_state (STATE_PATH @ ''.tmp'') \<noteq> Some Dir
   \<and> save_state_killed BeforeReplace fs_with_state state_new (STATE_PATH @ ''.tmp'')
       = Some (File (Doc state_new))
   \<and> save_state fs_with_state state_new
       = Inr (fs_with_state(STATE_PATH @ ''.tmp'' := None, STATE_PATH \<mapsto> File (Doc state_new)))
   \<and> snd (load_state (fs_with_state(STATE_PATH @ ''.tmp'' := None, STATE_PATH \<mapsto> File (Doc state_new))))
       = state_new"
proof -
  let ?fs1 = "fs_with_state(STATE_PATH @ ''.tmp'' := None, STATE_PATH \<mapsto> File (Doc state_new))"
  have h1: "fs_with_state (STATE_PATH @ ''.tmp'') \<noteq> Some Dir" by (simp add: fs_with_state_def)
  have h2: "save_state fs_with_state state_new = Inr ?fs1"
    by (simp add: fs_with_state_def save_state_def write_file_def os_replace_def os_rename_def Let_def)
  have h3: "snd (load_state fs_with_state) = state_old"
    by (simp add: fs_with_state_def load_state_def load_json_def)
  have h4: "save_state_killed (DuringDump ''{'') fs_with_state state_new (STATE_PATH @ ''.tmp'')
       = Some (File (Bytes ''{''))"
    by (simp add: fs_with_state_def save_state_killed_def write_file_def Let_def)
  from save_state_atomic [of "DuringDump ''{''" fs_with_state state_new ?fs1] h1 h2 h3 h4
  show ?thesis by simp
qed

section \<open>Properties of the pipeline\<close>

lemma write_file_dir: "f p = Some Dir \<Longrightarrow> write_file f p c = Inl OSError"
  by (simp add: write_file_def)

lemma write_file_ok: "f p \<noteq> Some Dir \<Longrightarrow> write_file f p c = Inr (f(p \<mapsto> File c))"
  by (simp add: write_file_def split: option.splits node.splits)

lemma download_and_dedupe_unfold:
  assumes "get u = Inr r" and "\<not> (400 \<le> status_code r \<and> status_code r < 600)"
    and "sha256 L (content r) \<notin> H" and "filename_from_url L u = Inr base"
  shows "download_and_dedupe L get f u pid i H =
     (case write_file f (path_join SAVE_DIR
                           (pid @ ''_'' @ str_nat i @ extension_for base (content_type r)))
             (Bytes (content r)) of
        Inl e \<Rightarrow> Inl e
      | Inr fs' \<Rightarrow>
          Inr (fs', Some (path_join SAVE_DIR
                            (pid @ ''_'' @ str_nat i @ extension_for base (content_type r)),
                          sha256 L (content r))))"
proof (cases "snd (splitext base) = []")
  case True
  then show ?thesis using assms
    by (auto simp: download_and_dedupe_def sha256_bytes_def Let_def extension_for_def
        cong: sum.case_cong)
next
  case False
  then show ?thesis using assms
    by (auto simp: download_and_dedupe_def sha256_bytes_def Let_def extension_for_def
        cong: sum.case_cong)
qed

lemma download_and_dedupe_cases:
  "(\<exists>e. download_and_dedupe L get f u pid i H = Inl e)
   \<or> download_and_dedupe L get f u pid i H = Inr (f, None)
   \<or> (\<exists>r base fpath.
         get u = Inr r \<and> \<not> (400 \<le> status_code r \<and> status_code r < 600)
         \<and> sha256 L (content r) \<notin> H \<and> filename_from_url L u = Inr base
         \<and> fpath = path_join SAVE_DIR
                       (pid @ ''_'' @ str_nat i @ extension_for base (content_type r))
         \<and> f fpath \<noteq> Some Dir
         \<and> download_and_dedupe L get f u pid i H
             = Inr (f(fpath \<mapsto> File (Bytes (content r))), Some (fpath, sha256 L (content r))))"
proof (cases "get u")
  case (Inl e)
  then show ?thesis by (simp add: download_and_dedupe_def)
next
  case r: (Inr r)
  show ?thesis
  proof (cases "400 \<le> status_code r \<and> status_code r < 600")
    case True
    then show ?thesis using r by (simp add: download_and_dedupe_def)
  next
    case ok: False
    show ?thesis
    proof (cases "sha256 L (content r) \<in> H")
      case True
      then show ?thesis using r ok by (simp add: download_and_dedupe_def sha256_bytes_def)
    next
      case new: False
      show ?thesis
      proof (cases "filename_from_url L u")
        case (Inl e)
        then show ?thesis using r ok new by (simp add: download_and_dedupe_def sha256_bytes_def)
      next
        case base: (Inr base)
        let ?fpath = "path_join SAVE_DIR
                       (pid @ ''_'' @ str_nat i @ extension_for base (content_type r))"
        show ?thesis
        proof (cases "f ?fpath = Some Dir")
          case True
          then have "download_and_dedupe L get f u pid i H = Inl OSError"
            using download_and_dedupe_unfold
              [where get = get and u = u and L = L and H = H and f = f and pid = pid and i = i,
               OF r ok new base]
            by (simp add: write_file_dir)
          then show ?thesis by simp
        next
          case False
          then have "download_and_dedupe L get f u pid i H
             = Inr (f(?fpath \<mapsto> File (Bytes (content r))), Some (?fpath, sha256 L (content r)))"
            using download_and_dedupe_unfold
              [where get = get and u = u and L = L and H = H and f = f and pid = pid and i = i,
               OF r ok new base]
            by (simp add: write_file_ok)
          then show ?thesis using r ok new base False by blast
        qed
      qed
    qed
  qed
qed

lemma attempt_cases:
  "(attempt L get pid i u st = st \<and> (\<exists>e. download_and_dedupe L get (fs st) u pid i (seen_hashes st) = Inl e))
   \<or> (attempt L get pid i u st = st\<lparr>skipped_hashes := skipped_hashes st + 1\<rparr>
        \<and> download_and_dedupe L get (fs st) u pid i (seen_hashes st) = Inr (fs st, None))
   \<or> (\<exists>fpath h c. h \<notin> seen_hashes st \<and> fs st fpath \<noteq> Some Dir
        \<and> download_and_dedupe L get (fs st) u pid i (seen_hashes st)
            = Inr ((fs st)(fpath \<mapsto> File (Bytes c)), Some (fpath, h))
        \<and> attempt L get pid i u st
            = st\<lparr>fs := (fs st)(fpath \<mapsto> File (Bytes c)), seen_hashes := insert h (seen_hashes st),
                 downloaded := downloaded st + 1, saved := saved st @ [(fpath, h)]\<rparr>)"
  using download_and_dedupe_cases [of L get "fs st" u pid i "seen_hashes st"]
  by (auto simp: attempt_def)

lemma attempt_seen_post_ids: "seen_post_ids (attempt L get pid i u st) = seen_post_ids st"
  using attempt_cases [of L get pid i u st] by auto



lemma attempt_adds: "\<exists>new. adds_files st (attempt L get pid i u st) new"
proof -
  consider "attempt L get pid i u st = st"
    | "attempt L get pid i u st = st\<lparr>skipped_hashes := skipped_hashes st + 1\<rparr>"
    | fpath h c where "h \<notin> seen_hashes st"
        "attempt L get pid i u st
            = st\<lparr>fs := (fs st)(fpath \<mapsto> File (Bytes c)), seen_hashes := insert h (seen_hashes st),
                 downloaded := downloaded st + 1, saved := saved st @ [(fpath, h)]\<rparr>"
    using attempt_cases [of L get pid i u st] by blast
  then show ?thesis
  proof cases
    case 1
    then have "adds_files st (attempt L get pid i u st) []" by (simp add: adds_files_def)
    then show ?thesis ..
  next
    case 2
    then have "adds_files st (attempt L get pid i u st) []" by (simp add: adds_files_def)
    then show ?thesis ..
  next
    case 3
    then have "adds_files st (attempt L get pid i u st) [(fpath, h)]" by (simp add: adds_files_def)
    then show ?thesis ..
  qed
qed

lemma adds_files_refl: "adds_files st st []"
  by (simp add: adds_files_def)

lemma adds_files_trans:
  "adds_files a b n1 \<Longrightarrow> adds_files b c n2 \<Longrightarrow> adds_files a c (n1 @ n2)"
  by (auto simp: adds_files_def)

lemma adds_files_update:
  "adds_files a b n \<Longrightarrow> adds_files a (b\<lparr>seen_post_ids := X\<rparr>) n"
  "adds_files a b n \<Longrightarrow> adds_files a (b\<lparr>skipped_posts := k\<rparr>) n"
  by (simp_all add: adds_files_def)

lemma candidate_loop_seen_post_ids:
  "seen_post_ids (candidate_loop L get pid i urls st) = seen_post_ids st"
  by (induction urls arbitrary: i st) (simp_all add: attempt_seen_post_ids)



lemma candidate_loop_adds: "\<exists>new. adds_files st (candidate_loop L get pid i urls st) new"
proof (induction urls arbitrary: i st)
  case Nil
  show ?case using adds_files_refl by auto
next
  case (Cons u urls)
  obtain n1 where n1: "adds_files st (attempt L get pid i u st) n1"
    using attempt_adds by blast
  obtain n2 where n2: "adds_files (attempt L get pid i u st)
      (candidate_loop L get pid (i + 1) urls (attempt L get pid i u st)) n2"
    using Cons.IH by blast
  have "adds_files st (candidate_loop L get pid i (u # urls) st) (n1 @ n2)"
    using adds_files_trans [OF n1 n2] by simp
  then show ?case ..
qed

lemma process_post_cases:
  assumes "process_post L get s st = Inr st'"
  shows "st' = st\<lparr>skipped_posts := skipped_posts st + 1\<rparr> \<and> sub_id s \<in> seen_post_ids st
       \<or> (\<exists>urls st1. get_image_urls_from_submission L s = Inr urls
            \<and> st1 = candidate_loop L get (sub_id s) 1 urls st
            \<and> st' = st1\<lparr>seen_post_ids := insert (sub_id s) (seen_post_ids st1)\<rparr>)"
  using assms
  by (auto simp: process_post_def Let_def split: if_splits sum.splits)




lemma process_post_adds:
  assumes "process_post L get s st = Inr st'"
  shows "\<exists>new. adds_files st st' new"
proof -
  from process_post_cases [OF assms]
  consider "st' = st\<lparr>skipped_posts := skipped_posts st + 1\<rparr>"
    | urls where "st' = (candidate_loop L get (sub_id s) 1 urls st)
        \<lparr>seen_post_ids := insert (sub_id s) (seen_post_ids (candidate_loop L get (sub_id s) 1 urls st))\<rparr>"
    by blast
  then show ?thesis
  proof cases
    case 1
    then show ?thesis using adds_files_update(2) [OF adds_files_refl] by blast
  next
    case 2
    obtain new where "adds_files st (candidate_loop L get (sub_id s) 1 urls st) new"
      using candidate_loop_adds by blast
    then show ?thesis using 2 adds_files_update(1) by blast
  qed
qed





lemma feed_loop_adds:
  "feed_loop L get feed st = Inr st' \<Longrightarrow> \<exists>new. adds_files st st' new"
proof (induction feed arbitrary: st)
  case Nil
  then show ?case using adds_files_refl by auto
next
  case (Cons s feed)
  from Cons.prems obtain st1 where p: "process_post L get s st = Inr st1"
    and r: "feed_loop L get feed st1 = Inr st'"
    by (auto split: sum.splits)
  obtain n1 where n1: "adds_files st st1 n1" using process_post_adds [OF p] by blast
  obtain n2 where n2: "adds_files st1 st' n2" using Cons.IH [OF r] by blast
  show ?case using adds_files_trans [OF n1 n2] by blast
qed



text \<open>
  The resolver does raise on some posts: the \<^verbatim>\<open>urlparse\<close> call of line 134 is outside
  any \<^verbatim>\<open>try\<close>, and so is the resolver's call on line 223. The traversal then ends
  with the exception, on that post.
\<close>

lemma resolver_can_raise:
  "get_image_urls_from_submission L0 post_bad_bracket = Inl ValueError
   \<and> isl (feed_loop L0 get_fails [post_bad_bracket, post_link_preview] fresh_state)"
  by code_simp



lemma download_and_dedupe_saved:
  assumes "download_and_dedupe L get f u pid i H = Inr (f1, Some entry)"
  shows "\<exists>base r. get u = Inr r \<and> filename_from_url L u = Inr base
           \<and> entry = (path_join SAVE_DIR
                         (pid @ ''_'' @ str_nat i @ extension_for base (content_type r)),
                       sha256 L (content r))"
proof -
  have "(\<exists>e. download_and_dedupe L get f u pid i H = Inl e)
   \<or> download_and_dedupe L get f u pid i H = Inr (f, None)
   \<or> (\<exists>r base fpath.
         get u = Inr r \<and> \<not> (400 \<le> status_code r \<and> status_code r < 600)
         \<and> sha256 L (content r) \<notin> H \<and> filename_from_url L u = Inr base
         \<and> fpath = path_join SAVE_DIR
                       (pid @ ''_'' @ str_nat i @ extension_for base (content_type r))
         \<and> f fpath \<noteq> Some Dir
         \<and> download_and_dedupe L get f u pid i H
             = Inr (f(fpath \<mapsto> File (Bytes (content r))), Some (fpath, sha256 L (content r))))"
    by (rule download_and_dedupe_cases)
  then show ?thesis
  proof (elim disjE exE conjE)
    fix e
    assume "download_and_dedupe L get f u pid i H = Inl e"
    then show ?thesis using assms by simp
  next
    assume "download_and_dedupe L get f u pid i H = Inr (f, None)"
    then show ?thesis using assms by simp
  next
    fix r base fp
    assume g: "get u = Inr r" and b: "filename_from_url L u = Inr base"
      and fp: "fp = path_join SAVE_DIR
                       (pid @ ''_'' @ str_nat i @ extension_for base (content_type r))"
      and d: "download_and_dedupe L get f u pid i H
             = Inr (f(fp \<mapsto> File (Bytes (content r))), Some (fp, sha256 L (content r)))"
    from d assms have "entry = (fp, sha256 L (content r))" by simp
    then show ?thesis using g b fp by simp
  qed
qed

lemma named_by_position_saved:
  assumes "download_and_dedupe L get f (urls ! k) pid (i + k) H = Inr (f1, Some entry)"
  shows "named_by_position L get pid i urls k entry"
  using download_and_dedupe_saved [OF assms] by (auto simp: named_by_position_def)

lemma saved_at_zero:
  "saved_at L get pid i (u # urls) st 0
     = (\<exists>f res. download_and_dedupe L get (fs st) u pid i (seen_hashes st) = Inr (f, Some res))"
  by (auto simp: saved_at_def split: sum.splits option.splits)

lemma saved_at_Suc:
  "saved_at L get pid i (u # urls) st (Suc k)
     = saved_at L get pid (Suc i) urls (attempt L get pid i u st) k"
  by (simp add: saved_at_def)

lemma named_by_position_Suc:
  "named_by_position L get pid i (u # urls) (Suc k) entry
     = named_by_position L get pid (Suc i) urls k entry"
  by (simp add: named_by_position_def cong: sum.case_cong)

lemma candidate_loop_positions:
  "\<exists>ks new. saved (candidate_loop L get pid i urls st) = saved st @ new
     \<and> downloaded (candidate_loop L get pid i urls st) = downloaded st + length new
     \<and> sorted_wrt (<) ks
     \<and> (\<forall>k. k \<in> set ks \<longleftrightarrow> saved_at L get pid i urls st k)
     \<and> list_all2 (named_by_position L get pid i urls) ks new"
proof (induction urls arbitrary: i st)
  case Nil
  have "saved (candidate_loop L get pid i [] st) = saved st @ []
     \<and> downloaded (candidate_loop L get pid i [] st) = downloaded st + length ([]::(string \<times> string) list)
     \<and> sorted_wrt (<) ([]::nat list)
     \<and> (\<forall>k. k \<in> set [] \<longleftrightarrow> saved_at L get pid i [] st k)
     \<and> list_all2 (named_by_position L get pid i []) [] []"
    by (simp add: saved_at_def)
  then show ?case by blast
next
  case (Cons u urls)
  let ?st1 = "attempt L get pid i u st"
  from Cons.IH [of "Suc i" ?st1] obtain ks new where
    sv: "saved (candidate_loop L get pid (Suc i) urls ?st1) = saved ?st1 @ new"
    and dl: "downloaded (candidate_loop L get pid (Suc i) urls ?st1) = downloaded ?st1 + length new"
    and so: "sorted_wrt (<) ks"
    and at: "\<forall>k. k \<in> set ks \<longleftrightarrow> saved_at L get pid (Suc i) urls ?st1 k"
    and nm: "list_all2 (named_by_position L get pid (Suc i) urls) ks new"
    by blast
  have so': "sorted_wrt (<) (map Suc ks)" using so by (simp add: sorted_wrt_map)
  have nm': "list_all2 (named_by_position L get pid i (u # urls)) (map Suc ks) new"
    using nm by (simp add: list_all2_map1 named_by_position_Suc)
  have at': "Suc k \<in> set (map Suc ks) \<longleftrightarrow> saved_at L get pid i (u # urls) st (Suc k)" for k
    using at by (auto simp: saved_at_Suc)
  let ?d = "download_and_dedupe L get (fs st) u pid i (seen_hashes st)"
  show ?case
  proof (cases "\<exists>f res. ?d = Inr (f, Some res)")
    case True
    then obtain f entry where d: "?d = Inr (f, Some entry)" by blast
    obtain fpath h where e: "entry = (fpath, h)" by (cases entry)
    have a1: "saved ?st1 = saved st @ [entry]" "downloaded ?st1 = downloaded st + 1"
      using d e by (simp_all add: attempt_def)
    have n0: "named_by_position L get pid i (u # urls) 0 entry"
      using named_by_position_saved [of L get "fs st" "u # urls" 0 pid i "seen_hashes st" f entry] d
      by simp
    have z: "saved_at L get pid i (u # urls) st 0" using True by (simp add: saved_at_zero)
    have "saved (candidate_loop L get pid i (u # urls) st) = saved st @ (entry # new)
     \<and> downloaded (candidate_loop L get pid i (u # urls) st) = downloaded st + length (entry # new)
     \<and> sorted_wrt (<) (0 # map Suc ks)
     \<and> (\<forall>k. k \<in> set (0 # map Suc ks) \<longleftrightarrow> saved_at L get pid i (u # urls) st k)
     \<and> list_all2 (named_by_position L get pid i (u # urls)) (0 # map Suc ks) (entry # new)"
    proof (intro conjI allI)
      show "saved (candidate_loop L get pid i (u # urls) st) = saved st @ (entry # new)"
        using sv a1 by simp
      show "downloaded (candidate_loop L get pid i (u # urls) st)
              = downloaded st + length (entry # new)"
        using dl a1 by simp
      show "sorted_wrt (<) (0 # map Suc ks)" using so' by auto
      show "list_all2 (named_by_position L get pid i (u # urls)) (0 # map Suc ks) (entry # new)"
        using nm' n0 by simp
      fix k
      show "k \<in> set (0 # map Suc ks) \<longleftrightarrow> saved_at L get pid i (u # urls) st k"
      proof (cases k)
        case 0
        then show ?thesis using z by simp
      next
        case (Suc k')
        then show ?thesis using at' [of k'] by auto
      qed
    qed
    then show ?thesis by blast
  next
    case False
    have a1: "saved ?st1 = saved st" "downloaded ?st1 = downloaded st"
      using attempt_cases [of L get pid i u st] False by auto
    have z: "\<not> saved_at L get pid i (u # urls) st 0" using False by (simp add: saved_at_zero)
    have "saved (candidate_loop L get pid i (u # urls) st) = saved st @ new
     \<and> downloaded (candidate_loop L get pid i (u # urls) st) = downloaded st + length new
     \<and> sorted_wrt (<) (map Suc ks)
     \<and> (\<forall>k. k \<in> set (map Suc ks) \<longleftrightarrow> saved_at L get pid i (u # urls) st k)
     \<and> list_all2 (named_by_position L get pid i (u # urls)) (map Suc ks) new"
    proof (intro conjI allI)
      show "saved (candidate_loop L get pid i (u # urls) st) = saved st @ new"
        using sv a1 by simp
      show "downloaded (candidate_loop L get pid i (u # urls) st) = downloaded st + length new"
        using dl a1 by simp
      show "sorted_wrt (<) (map Suc ks)" by (rule so')
      show "list_all2 (named_by_position L get pid i (u # urls)) (map Suc ks) new" by (rule nm')
      fix k
      show "k \<in> set (map Suc ks) \<longleftrightarrow> saved_at L get pid i (u # urls) st k"
      proof (cases k)
        case 0
        then show ?thesis using z by auto
      next
        case (Suc k')
        then show ?thesis using at' [of k'] by auto
      qed
    qed
    then show ?thesis by blast
  qed
qed

lemma contiguous_indices:
  assumes "map (\<lambda>k. i + k) ks = [i..<i + length ks]"
  shows "ks = [0..<length ks]"
proof -
  have "[i..<i + length ks] = map (\<lambda>k. i + k) [0..<length ks]"
    using map_add_upt [of i "length ks"] by (simp add: add.commute)
  then have "map (\<lambda>k. i + k) ks = map (\<lambda>k. i + k) [0..<length ks]" using assms by simp
  moreover have "inj (\<lambda>k. i + k)" by (simp add: inj_on_def)
  ultimately show ?thesis by (simp add: inj_map_eq_map)
qed

lemma skipped_before_saved_gap:
  assumes "j < k" and "j \<notin> set ks" and "k \<in> set ks"
  shows "map (\<lambda>k. i + k) ks \<noteq> [i..<i + length ks]"
proof
  assume "map (\<lambda>k. i + k) ks = [i..<i + length ks]"
  then have eq: "ks = [0..<length ks]" by (rule contiguous_indices)
  have "k \<in> set [0..<length ks]" using assms(3) eq by simp
  then have "j \<in> set [0..<length ks]" using assms(1) by simp
  then show False using assms(2) eq by simp
qed

text \<open>
  Claim C10: the index in a saved file's name is the 1-based position of its URL in the
  resolver's list, not a count of saved files. For every post that is not yet processed
  and whose resolver returns \<open>urls\<close>, the files saved for the post are, in order, those
  of the positions \<open>ks\<close> at which a candidate is saved, and the file of position \<open>k\<close>
  (counted from 0) is named with the index \<open>1 + k\<close>. Hence, whenever a candidate that
  is not saved (it fails or is a duplicate) comes before one that is saved, the indices
  of the saved files are not \<open>1, 2, \<dots>\<close> up to their number: they start above 1 or
  have a gap.
\<close>

theorem index_is_position:
  assumes "sub_id s \<notin> seen_post_ids st"
    and "get_image_urls_from_submission L s = Inr urls"
  shows "\<exists>st' ks new. process_post L get s st = Inr st'
           \<and> saved st' = saved st @ new
           \<and> downloaded st' = downloaded st + length new
           \<and> sorted_wrt (<) ks
           \<and> (\<forall>k. k \<in> set ks \<longleftrightarrow> saved_at L get (sub_id s) 1 urls st k)
           \<and> list_all2 (named_by_position L get (sub_id s) 1 urls) ks new
           \<and> (\<forall>j k. j < k \<and> j \<notin> set ks \<and> k \<in> set ks \<longrightarrow>
                  map (\<lambda>k. 1 + k) ks \<noteq> [1..<1 + length ks])"
proof -
  let ?st1 = "candidate_loop L get (sub_id s) 1 urls st"
  let ?st' = "?st1\<lparr>seen_post_ids := insert (sub_id s) (seen_post_ids st)\<rparr>"
  have p: "process_post L get s st = Inr ?st'"
  proof (cases "urls = []")
    case True
    then show ?thesis using assms by (simp add: process_post_def)
  next
    case False
    then show ?thesis
      using assms by (simp add: process_post_def Let_def candidate_loop_seen_post_ids)
  qed
  from candidate_loop_positions [of L get "sub_id s" 1 urls st] obtain ks new where
    sv: "saved ?st1 = saved st @ new"
    and dl: "downloaded ?st1 = downloaded st + length new"
    and so: "sorted_wrt (<) ks"
    and at: "\<forall>k. k \<in> set ks \<longleftrightarrow> saved_at L get (sub_id s) 1 urls st k"
    and nm: "list_all2 (named_by_position L get (sub_id s) 1 urls) ks new"
    by blast
  have gap: "\<forall>j k. j < k \<and> j \<notin> set ks \<and> k \<in> set ks \<longrightarrow>
                  map (\<lambda>k. 1 + k) ks \<noteq> [1..<1 + length ks]"
    using skipped_before_saved_gap [of _ _ ks 1] by blast
  have "process_post L get s st = Inr ?st'
           \<and> saved ?st' = saved st @ new
           \<and> downloaded ?st' = downloaded st + length new
           \<and> sorted_wrt (<) ks
           \<and> (\<forall>k. k \<in> set ks \<longleftrightarrow> saved_at L get (sub_id s) 1 urls st k)
           \<and> list_all2 (named_by_position L get (sub_id s) 1 urls) ks new
           \<and> (\<forall>j k. j < k \<and> j \<notin> set ks \<and> k \<in> set ks \<longrightarrow>
                  map (\<lambda>k. 1 + k) ks \<noteq> [1..<1 + length ks])"
    using p sv dl so at nm gap by simp
  then show ?thesis by blast
qed

theorem index_is_position_witness:
  "get_image_urls_from_submission L0 post_gallery_three
     = Inr [''http://i.redd.it/a.png'', ''http://i.redd.it/b'', ''http://i.redd.it/c.png'']
   \<and> get_first_third ''http://i.redd.it/b'' = Inl RequestException
   \<and> map fst (saved (projr (process_post L0 get_first_third post_gallery_three fresh_state)))
       = [''~/texting_theory_screenshots/g9_1.png'', ''~/texting_theory_screenshots/g9_3.png'']
   \<and> (\<exists>ks new. saved (projr (process_post L0 get_first_third post_gallery_three fresh_state))
                   = new
          \<and> list_all2 (named_by_position L0 get_first_third ''g9'' 1
                [''http://i.redd.it/a.png'', ''http://i.redd.it/b'', ''http://i.redd.it/c.png''])
               ks new
          \<and> 0 \<in> set ks \<and> 1 \<notin> set ks \<and> 2 \<in> set ks
          \<and> map (\<lambda>k. 1 + k) ks \<noteq> [1..<1 + length ks])"
proof -
  let ?urls = "[''http://i.redd.it/a.png'', ''http://i.redd.it/b'', ''http://i.redd.it/c.png'']"
  have h1: "sub_id post_gallery_three \<notin> seen_post_ids fresh_state"
    by (simp add: fresh_state_def)
  have h2: "get_image_urls_from_submission L0 post_gallery_three = Inr ?urls" by code_simp
  have g: "get_first_third ''http://i.redd.it/b'' = Inl RequestException"
    by (simp add: get_first_third_def)
  have n: "map fst (saved (projr (process_post L0 get_first_third post_gallery_three fresh_state)))
       = [''~/texting_theory_screenshots/g9_1.png'', ''~/texting_theory_screenshots/g9_3.png'']"
    by code_simp
  have i: "sub_id post_gallery_three = ''g9''" by (simp add: post_gallery_three_def)
  have s0: "saved_at L0 get_first_third ''g9'' 1 ?urls fresh_state 0" by code_simp
  have s1: "\<not> saved_at L0 get_first_third ''g9'' 1 ?urls fresh_state 1" by code_simp
  have s2: "saved_at L0 get_first_third ''g9'' 1 ?urls fresh_state 2" by code_simp
  have sv0: "saved fresh_state = []" by (simp add: fresh_state_def)
  from index_is_position [OF h1 h2, of get_first_third] obtain st' ks new where
    p: "process_post L0 get_first_third post_gallery_three fresh_state = Inr st'"
    and sv: "saved st' = saved fresh_state @ new"
    and at: "\<forall>k. k \<in> set ks \<longleftrightarrow> saved_at L0 get_first_third ''g9'' 1 ?urls fresh_state k"
    and nm: "list_all2 (named_by_position L0 get_first_third ''g9'' 1 ?urls) ks new"
    and gap: "\<forall>j k. j < k \<and> j \<notin> set ks \<and> k \<in> set ks \<longrightarrow>
                  map (\<lambda>k. 1 + k) ks \<noteq> [1..<1 + length ks]"
    unfolding i by blast
  have m0: "0 \<in> set ks" and m1: "1 \<notin> set ks" and m2: "2 \<in> set ks"
    using at s0 s1 s2 by blast+
  have ng: "map (\<lambda>k. 1 + k) ks \<noteq> [1..<1 + length ks]"
    using gap m1 m2 by (metis one_less_numeral_iff semiring_norm(76))
  have "saved (projr (process_post L0 get_first_third post_gallery_three fresh_state)) = new"
    using p sv sv0 by simp
  then show ?thesis using h2 g n nm m0 m1 m2 ng by blast
qed

lemma download_and_dedupe_duplicate:
  assumes "get u = Inr r" and "\<not> (400 \<le> status_code r \<and> status_code r < 600)"
    and "sha256 L (content r) \<in> H"
  shows "download_and_dedupe L get f u pid i H = Inr (f, None)"
  using assms by (auto simp: download_and_dedupe_def sha256_bytes_def)

text \<open>
  Claim C3: content dedupe. Over any traversal of a feed the files saved have pairwise
  different digests, none of which was in the content-hash set before, and the set grows
  by exactly the digests of the files saved, one per file. A body whose digest is in the
  set is dropped: \<open>download_and_dedupe\<close> returns \<open>None\<close> and the file system is as it
  was. For two unprocessed posts with different identifiers, each resolving to one URL,
  whose fetches succeed with the same body, the digest being new and the first file's
  name derivable and free of a directory: exactly one file is saved (for the first post),
  exactly one digest is added, and the second body is counted as a duplicate.
\<close>

theorem content_dedupe:
  "(feed_loop L get feed st = Inr st' \<longrightarrow>
      (\<exists>new. saved st' = saved st @ new \<and> distinct (map snd new)
         \<and> snd ` set new \<inter> seen_hashes st = {}
         \<and> seen_hashes st' = seen_hashes st \<union> snd ` set new
         \<and> downloaded st' = downloaded st + length new))
   \<and> (get u = Inr r \<and> \<not> (400 \<le> status_code r \<and> status_code r < 600)
        \<and> sha256 L (content r) \<in> H \<longrightarrow>
        download_and_dedupe L get f u pid i H = Inr (f, None))
   \<and> (sub_id pa \<notin> seen_post_ids st \<and> sub_id pb \<notin> seen_post_ids st \<and> sub_id pa \<noteq> sub_id pb
        \<and> get_image_urls_from_submission L pa = Inr [ua]
        \<and> get_image_urls_from_submission L pb = Inr [ub]
        \<and> get ua = Inr ra \<and> get ub = Inr rb \<and> content ra = content rb
        \<and> \<not> (400 \<le> status_code ra \<and> status_code ra < 600)
        \<and> \<not> (400 \<le> status_code rb \<and> status_code rb < 600)
        \<and> sha256 L (content ra) \<notin> seen_hashes st
        \<and> filename_from_url L ua = Inr base
        \<and> fpath = path_join SAVE_DIR (sub_id pa @ ''_'' @ str_nat 1 @ extension_for base (content_type ra))
        \<and> fs st fpath \<noteq> Some Dir \<longrightarrow>
        feed_loop L get [pa, pb] st
          = Inr (st\<lparr>fs := (fs st)(fpath \<mapsto> File (Bytes (content ra))),
                    seen_post_ids := insert (sub_id pb) (insert (sub_id pa) (seen_post_ids st)),
                    seen_hashes := insert (sha256 L (content ra)) (seen_hashes st),
                    downloaded := downloaded st + 1,
                    skipped_hashes := skipped_hashes st + 1,
                    saved := saved st @ [(fpath, sha256 L (content ra))]\<rparr>))"
proof -
  have a: "\<exists>new. saved st' = saved st @ new \<and> distinct (map snd new)
         \<and> snd ` set new \<inter> seen_hashes st = {}
         \<and> seen_hashes st' = seen_hashes st \<union> snd ` set new
         \<and> downloaded st' = downloaded st + length new"
    if "feed_loop L get feed st = Inr st'"
    using feed_loop_adds [OF that] by (simp add: adds_files_def)
  have b: "download_and_dedupe L get f u pid i H = Inr (f, None)"
    if "get u = Inr r \<and> \<not> (400 \<le> status_code r \<and> status_code r < 600)
        \<and> sha256 L (content r) \<in> H"
    using that download_and_dedupe_duplicate [of get u r L H f pid i] by blast
  have c: "feed_loop L get [pa, pb] st
          = Inr (st\<lparr>fs := (fs st)(fpath \<mapsto> File (Bytes (content ra))),
                    seen_post_ids := insert (sub_id pb) (insert (sub_id pa) (seen_post_ids st)),
                    seen_hashes := insert (sha256 L (content ra)) (seen_hashes st),
                    downloaded := downloaded st + 1,
                    skipped_hashes := skipped_hashes st + 1,
                    saved := saved st @ [(fpath, sha256 L (content ra))]\<rparr>)"
    if h: "sub_id pa \<notin> seen_post_ids st \<and> sub_id pb \<notin> seen_post_ids st \<and> sub_id pa \<noteq> sub_id pb
        \<and> get_image_urls_from_submission L pa = Inr [ua]
        \<and> get_image_urls_from_submission L pb = Inr [ub]
        \<and> get ua = Inr ra \<and> get ub = Inr rb \<and> content ra = content rb
        \<and> \<not> (400 \<le> status_code ra \<and> status_code ra < 600)
        \<and> \<not> (400 \<le> status_code rb \<and> status_code rb < 600)
        \<and> sha256 L (content ra) \<notin> seen_hashes st
        \<and> filename_from_url L ua = Inr base
        \<and> fpath = path_join SAVE_DIR (sub_id pa @ ''_'' @ str_nat 1 @ extension_for base (content_type ra))
        \<and> fs st fpath \<noteq> Some Dir"
  proof -
    let ?h = "sha256 L (content ra)"
    let ?st1 = "st\<lparr>fs := (fs st)(fpath \<mapsto> File (Bytes (content ra))),
                  seen_hashes := insert ?h (seen_hashes st),
                  downloaded := downloaded st + 1, saved := saved st @ [(fpath, ?h)]\<rparr>"
    have g1: "get ua = Inr ra" using h by blast
    have g2: "get ub = Inr rb" using h by blast
    have ceq: "content rb = content ra" using h by metis
    have new: "?h \<notin> seen_hashes st" using h by blast
    have base: "filename_from_url L ua = Inr base" using h by blast
    have fp: "fpath = path_join SAVE_DIR
                 (sub_id pa @ ''_'' @ str_nat 1 @ extension_for base (content_type ra))"
      using h by blast
    have nd: "fs st fpath \<noteq> Some Dir" using h by blast
    have i1: "sub_id pa \<notin> seen_post_ids st" using h by blast
    have i2: "sub_id pb \<notin> seen_post_ids st" using h by blast
    have i12: "sub_id pa \<noteq> sub_id pb" using h by blast
    have q1: "get_image_urls_from_submission L pa = Inr [ua]" using h by blast
    have q2: "get_image_urls_from_submission L pb = Inr [ub]" using h by blast
    have ok1: "\<not> (400 \<le> status_code ra \<and> status_code ra < 600)" using h by blast
    have ok2: "\<not> (400 \<le> status_code rb \<and> status_code rb < 600)" using h by blast
    have w: "write_file (fs st) fpath (Bytes (content ra))
               = Inr ((fs st)(fpath \<mapsto> File (Bytes (content ra))))"
      using nd by (rule write_file_ok)
    have d1: "download_and_dedupe L get (fs st) ua (sub_id pa) 1 (seen_hashes st)
                = Inr ((fs st)(fpath \<mapsto> File (Bytes (content ra))), Some (fpath, ?h))"
      unfolding download_and_dedupe_unfold
        [where get = get and u = ua and L = L and H = "seen_hashes st" and f = "fs st"
           and pid = "sub_id pa" and i = 1, OF g1 ok1 new base] fp [symmetric] w
      by simp
    have a1: "attempt L get (sub_id pa) 1 ua st = ?st1"
      using d1 by (simp add: attempt_def)
    have pa: "process_post L get pa st
                = Inr (?st1\<lparr>seen_post_ids := insert (sub_id pa) (seen_post_ids st)\<rparr>)"
      using i1 q1 a1 by (simp add: process_post_def Let_def)
    let ?st2 = "?st1\<lparr>seen_post_ids := insert (sub_id pa) (seen_post_ids st)\<rparr>"
    have d2: "download_and_dedupe L get (fs ?st2) ub (sub_id pb) 1 (seen_hashes ?st2)
                = Inr (fs ?st2, None)"
      using download_and_dedupe_duplicate [of get ub rb L "seen_hashes ?st2" "fs ?st2" "sub_id pb" 1]
        g2 ok2 ceq by simp
    have a2: "attempt L get (sub_id pb) 1 ub ?st2 = ?st2\<lparr>skipped_hashes := skipped_hashes st + 1\<rparr>"
      using d2 by (simp add: attempt_def)
    have pb: "process_post L get pb ?st2
                = Inr (?st2\<lparr>skipped_hashes := skipped_hashes st + 1,
                             seen_post_ids := insert (sub_id pb) (insert (sub_id pa) (seen_post_ids st))\<rparr>)"
      using i2 i12 q2 a2 by (simp add: process_post_def Let_def)
    show ?thesis using pa pb by simp
  qed
  show ?thesis using a b c by blast
qed

theorem content_dedupe_witness:
  "content (projr (get_same_body ''http://i.redd.it/a.png''))
     = content (projr (get_same_body ''http://e.x/b.jpg''))
   \<and> saved (projr (feed_loop L0 get_same_body [post_first, post_second] fresh_state))
       = [(''~/texting_theory_screenshots/abc_1.png'', ''#AAA'')]
   \<and> seen_hashes (projr (feed_loop L0 get_same_body [post_first, post_second] fresh_state))
       = {''#AAA''}
   \<and> downloaded (projr (feed_loop L0 get_same_body [post_first, post_second] fresh_state)) = 1
   \<and> skipped_hashes (projr (feed_loop L0 get_same_body [post_first, post_second] fresh_state)) = 1
   \<and> download_and_dedupe L0 get_same_body Map.empty ''http://e.x/b.jpg'' ''xyz'' 1 {''#AAA''}
       = Inr (Map.empty, None)"
proof -
  let ?r = "\<lparr>status_code = 200, content_type = Some ''image/png'', content = ''AAA''\<rparr>"
  let ?fpath = "''~/texting_theory_screenshots/abc_1.png''"
  let ?st2 = "fresh_state\<lparr>fs := (fs fresh_state)(?fpath \<mapsto> File (Bytes (content ?r))),
                    seen_post_ids := insert (sub_id post_second)
                       (insert (sub_id post_first) (seen_post_ids fresh_state)),
                    seen_hashes := insert (sha256 L0 (content ?r)) (seen_hashes fresh_state),
                    downloaded := downloaded fresh_state + 1,
                    skipped_hashes := skipped_hashes fresh_state + 1,
                    saved := saved fresh_state @ [(?fpath, sha256 L0 (content ?r))]\<rparr>"
  have q1: "get_image_urls_from_submission L0 post_first = Inr [''http://i.redd.it/a.png'']"
    by code_simp
  have q2: "get_image_urls_from_submission L0 post_second = Inr [''http://e.x/b.jpg'']"
    by code_simp
  have g: "get_same_body u = Inr ?r" for u by (simp add: get_same_body_def)
  have n: "filename_from_url L0 ''http://i.redd.it/a.png'' = Inr ''a.png''" by code_simp
  have fp: "?fpath = path_join SAVE_DIR
              (sub_id post_first @ ''_'' @ str_nat 1 @ extension_for ''a.png'' (content_type ?r))"
    by code_simp
  have s: "sha256 L0 ''AAA'' = ''#AAA''" by (simp add: L0_def)
  have ids: "sub_id post_first = ''abc''" "sub_id post_second = ''xyz''"
    by (simp_all add: post_first_def post_second_def)
  have hc: "sub_id post_first \<notin> seen_post_ids fresh_state
        \<and> sub_id post_second \<notin> seen_post_ids fresh_state
        \<and> sub_id post_first \<noteq> sub_id post_second
        \<and> get_image_urls_from_submission L0 post_first = Inr [''http://i.redd.it/a.png'']
        \<and> get_image_urls_from_submission L0 post_second = Inr [''http://e.x/b.jpg'']
        \<and> get_same_body ''http://i.redd.it/a.png'' = Inr ?r
        \<and> get_same_body ''http://e.x/b.jpg'' = Inr ?r \<and> content ?r = content ?r
        \<and> \<not> (400 \<le> status_code ?r \<and> status_code ?r < 600)
        \<and> \<not> (400 \<le> status_code ?r \<and> status_code ?r < 600)
        \<and> sha256 L0 (content ?r) \<notin> seen_hashes fresh_state
        \<and> filename_from_url L0 ''http://i.redd.it/a.png'' = Inr ''a.png''
        \<and> ?fpath = path_join SAVE_DIR
              (sub_id post_first @ ''_'' @ str_nat 1 @ extension_for ''a.png'' (content_type ?r))
        \<and> fs fresh_state ?fpath \<noteq> Some Dir"
    using q1 q2 g n fp by (simp add: ids fresh_state_def)
  have hb: "get_same_body ''http://e.x/b.jpg'' = Inr ?r
        \<and> \<not> (400 \<le> status_code ?r \<and> status_code ?r < 600)
        \<and> sha256 L0 (content ?r) \<in> {''#AAA''}"
    using g s by simp
  note inst = content_dedupe
    [where L = L0 and get = get_same_body and feed = "[post_first, post_second]"
       and st = fresh_state and st' = ?st2 and u = "''http://e.x/b.jpg''" and r = ?r
       and H = "{''#AAA''}" and f = Map.empty and pid = "''xyz''" and i = 1
       and pa = post_first and pb = post_second and ua = "''http://i.redd.it/a.png''"
       and ub = "''http://e.x/b.jpg''" and ra = ?r and rb = ?r
       and base = "''a.png''" and fpath = ?fpath]
  from inst hc have run: "feed_loop L0 get_same_body [post_first, post_second] fresh_state = Inr ?st2"
    by blast
  from inst hb have dup: "download_and_dedupe L0 get_same_body Map.empty ''http://e.x/b.jpg'' ''xyz'' 1
         {''#AAA''} = Inr (Map.empty, None)"
    by blast
  show ?thesis using run dup g s by (simp add: fresh_state_def)
qed

section \<open>Idempotence of a run\<close>
















end
